theory Spec2Isabelle
  imports Main "HOL-Library.Multiset" "HOL-Library.Sublist"
begin

section \<open>Cards and Python's integer conversion\<close>

text \<open>
  The exceptions the program can raise: \<^verbatim>\<open>int(...)\<close> on a string that is not a number
  (\<open>ValueError\<close>), \<^verbatim>\<open>list.pop()\<close> on an empty list (\<open>IndexError\<close>) and \<^verbatim>\<open>input(...)\<close> at
  the end of standard input (\<open>EOFError\<close>). A function that can raise returns
  \<open>error + 'a\<close>, with \<open>Inl\<close> the exception.
\<close>

datatype error = ValueError | IndexError | EOFError

text \<open>
  \<^verbatim>\<open>class Card\<close>: two attributes, both strings. The constructor accepts any two strings;
  the ranks and suits the program itself ever builds are those of \<open>ranks\<close> and \<open>suits\<close>
  below.
\<close>

record card =
  rank :: string
  suit :: string

definition Card :: "string \<Rightarrow> string \<Rightarrow> card" where
  "Card r s = \<lparr>rank = r, suit = s\<rparr>"

text \<open>
  The program calls \<^verbatim>\<open>int(...)\<close> in two places. On the rank of a card, which is one of the
  ASCII texts of \<open>ranks\<close> below for every card the program builds, it is modelled by
  \<open>py_int\<close>: white space (tab, line feed, vertical tab, form feed, carriage return, space) is
  dropped at both ends, one sign may follow, then decimal digits, where a single underscore
  may stand between two digits; anything else raises \<open>ValueError\<close>, which is \<open>None\<close>. This is
  \<^verbatim>\<open>int\<close> on ASCII text of up to 4300 digits. On a line typed by the user, which may hold any
  characters (\<^verbatim>\<open>int\<close> also reads the digits and white space of other scripts, and refuses
  numerals longer than the interpreter's limit), the conversion is a parameter \<open>int_of\<close> of
  \<open>place_bet\<close> and of the functions that call it, so that what is proved of them holds for
  whatever \<^verbatim>\<open>int\<close> does.
\<close>

definition is_space :: "char \<Rightarrow> bool" where
  "is_space c = (let n = (of_char c :: nat) in n = 32 \<or> (9 \<le> n \<and> n \<le> 13))"

definition is_digit :: "char \<Rightarrow> bool" where
  "is_digit c = (let n = (of_char c :: nat) in 48 \<le> n \<and> n \<le> 57)"

definition digit_of :: "char \<Rightarrow> int" where
  "digit_of c = int (of_char c) - 48"

fun digits_value :: "string \<Rightarrow> int \<Rightarrow> int option" where
  "digits_value [] acc = Some acc"
| "digits_value (c # cs) acc =
     (if is_digit c then digits_value cs (10 * acc + digit_of c)
      else if c = CHR ''_'' then
        (case cs of
           [] \<Rightarrow> None
         | d # _ \<Rightarrow> if is_digit d then digits_value cs acc else None)
      else None)"

definition strip :: "string \<Rightarrow> string" where
  "strip s = rev (dropWhile is_space (rev (dropWhile is_space s)))"

definition signed_digits :: "bool \<Rightarrow> string \<Rightarrow> int option" where
  "signed_digits neg body =
     (case body of
        [] \<Rightarrow> None
      | d # _ \<Rightarrow>
          if is_digit d
          then map_option (\<lambda>n. if neg then - n else n) (digits_value body 0)
          else None)"

definition py_int :: "string \<Rightarrow> int option" where
  "py_int s =
     (case strip s of
        [] \<Rightarrow> None
      | c # cs \<Rightarrow>
          if c = CHR ''-'' then signed_digits True cs
          else if c = CHR ''+'' then signed_digits False cs
          else signed_digits False (c # cs))"

section \<open>Hand\<close>

text \<open>
  \<^verbatim>\<open>Hand.cards\<close> is a list of cards; \<^verbatim>\<open>add_card\<close> appends to it.
\<close>

type_synonym hand = "card list"

definition add_card :: "hand \<Rightarrow> card \<Rightarrow> hand" where
  "add_card h c = h @ [c]"

text \<open>
  \<^verbatim>\<open>Hand.calculate_value\<close>. The \<^verbatim>\<open>for\<close> loop over the cards, with its two accumulators
  \<^verbatim>\<open>value\<close> and \<^verbatim>\<open>aces\<close>; \<^verbatim>\<open>int(card.rank)\<close> raises on a rank that is not a number.
\<close>

fun add_ranks :: "hand \<Rightarrow> int \<Rightarrow> int \<Rightarrow> error + (int \<times> int)" where
  "add_ranks [] v a = Inr (v, a)"
| "add_ranks (c # cs) v a =
     (if rank c \<in> set [''J'', ''Q'', ''K''] then add_ranks cs (v + 10) a
      else if rank c = ''A'' then add_ranks cs (v + 11) (a + 1)
      else (case py_int (rank c) of
              None \<Rightarrow> Inl ValueError
            | Some n \<Rightarrow> add_ranks cs (v + n) a))"

text \<open>
  The \<^verbatim>\<open>while value > 21 and aces\<close> loop: an integer is true when it is not zero.
\<close>

function adjust_aces :: "int \<Rightarrow> int \<Rightarrow> int" where
  "adjust_aces v a = (if v > 21 \<and> a \<noteq> 0 then adjust_aces (v - 10) (a - 1) else v)"
  by pat_completeness auto
termination
  by (relation "measure (\<lambda>(v, a). nat (v - 21))") auto

declare adjust_aces.simps [simp del]

definition calculate_value :: "hand \<Rightarrow> error + int" where
  "calculate_value h =
     (case add_ranks h 0 0 of
        Inl e \<Rightarrow> Inl e
      | Inr (v, a) \<Rightarrow> Inr (adjust_aces v a))"

section \<open>The world outside the objects\<close>

text \<open>
  What the program prints, one constructor for each \<^verbatim>\<open>print\<close> or prompt of the source, with
  the values its text is formatted from.
\<close>

datatype msg =
    ShoeReshuffled
  | BetPrompt int
  | BetTooSmall
  | BetTooLarge
  | BetNotANumber
  | YourHand
  | DealersHand
  | ShowHand hand int
  | ShowHidden "card list"
  | HitStandPrompt
  | Bust
  | InvalidAction
  | DealersTurn
  | Result string
  | YouWon int
  | TieReturned
  | YouLost int
  | Welcome
  | Policy
  | OutOfMoney
  | PlayAgainPrompt
  | Thanks int

text \<open>
  The state shared by every object of the process: the list \<^verbatim>\<open>Shoe.shoe\<close>, which is an
  attribute of the class (no method ever assigns \<^verbatim>\<open>self.shoe\<close>, so every instance reads and
  mutates this one list); the random source, an endless sequence of raw draws; the lines
  still to be read from standard input; and what has been printed so far.
\<close>

record world =
  shoe :: "card list"
  rng :: "nat \<Rightarrow> nat"
  stdin :: "string list"
  stdout :: "msg list"

definition emit :: "msg \<Rightarrow> world \<Rightarrow> world" where
  "emit m w = w\<lparr>stdout := stdout w @ [m]\<rparr>"

text \<open>
  \<^verbatim>\<open>input(prompt)\<close>: prints the prompt and returns the next line, or raises \<open>EOFError\<close>
  when there is none.
\<close>

definition py_input :: "msg \<Rightarrow> world \<Rightarrow> error + (string \<times> world)" where
  "py_input p w =
     (case stdin w of
        [] \<Rightarrow> Inl EOFError
      | l # ls \<Rightarrow> Inr (l, (emit p w)\<lparr>stdin := ls\<rparr>))"

text \<open>\<^verbatim>\<open>str.lower()\<close> on ASCII letters; every other character is kept.\<close>

definition lower_char :: "char \<Rightarrow> char" where
  "lower_char c =
     (let n = (of_char c :: nat) in if 65 \<le> n \<and> n \<le> 90 then char_of (n + 32) else c)"

definition lower :: "string \<Rightarrow> string" where
  "lower s = map lower_char s"

section \<open>Shoe\<close>

definition ranks :: "string list" where
  "ranks = [''2'', ''3'', ''4'', ''5'', ''6''] @ [''7'', ''8'', ''9'', ''10''] @
           [''J'', ''Q'', ''K'', ''A'']"

text \<open>The four suit symbols (spade, club, heart, diamond), as their UTF-8 bytes.\<close>

definition suits :: "string list" where
  "suits = [[CHR 0xE2, CHR 0x99, CHR 0xA0], [CHR 0xE2, CHR 0x99, CHR 0xA3],
            [CHR 0xE2, CHR 0x99, CHR 0xA5], [CHR 0xE2, CHR 0x99, CHR 0xA6]]"

text \<open>
  \<^verbatim>\<open>random.shuffle(x)\<close>: for \<open>i\<close> from \<open>len(x) - 1\<close> down to \<open>1\<close>, draw \<open>j\<close> below \<open>i + 1\<close> and
  exchange \<open>x[i]\<close> and \<open>x[j]\<close>. A draw below \<open>n\<close> is the next raw draw modulo \<open>n\<close>.
\<close>

definition randbelow :: "nat \<Rightarrow> (nat \<Rightarrow> nat) \<Rightarrow> nat \<times> (nat \<Rightarrow> nat)" where
  "randbelow n g = (g 0 mod n, \<lambda>k. g (Suc k))"

fun exchange_down :: "nat \<Rightarrow> 'a list \<Rightarrow> (nat \<Rightarrow> nat) \<Rightarrow> 'a list \<times> (nat \<Rightarrow> nat)" where
  "exchange_down 0 xs g = (xs, g)"
| "exchange_down (Suc k) xs g =
     (case randbelow (Suc k + 1) g of
        (j, g') \<Rightarrow> exchange_down k (xs[Suc k := xs ! j, j := xs ! Suc k]) g')"

definition random_shuffle :: "'a list \<Rightarrow> (nat \<Rightarrow> nat) \<Rightarrow> 'a list \<times> (nat \<Rightarrow> nat)" where
  "random_shuffle xs g = exchange_down (length xs - 1) xs g"

text \<open>
  One pass of the outer loop of \<^verbatim>\<open>Shoe.shuffle\<close>: for each suit, for each rank, one card.
  \<^verbatim>\<open>range(deck_count)\<close> is empty for a count below one.
\<close>

definition one_deck :: "card list" where
  "one_deck = concat (map (\<lambda>s. map (\<lambda>r. Card r s) ranks) suits)"

definition decks :: "int \<Rightarrow> card list" where
  "decks deck_count = concat (replicate (nat deck_count) one_deck)"

definition is_empty :: "world \<Rightarrow> bool" where
  "is_empty w = (length (shoe w) = 0)"

definition shuffle :: "int \<Rightarrow> world \<Rightarrow> world" where
  "shuffle deck_count w =
     (case random_shuffle (shoe w @ decks deck_count) (rng w) of
        (xs, g) \<Rightarrow> w\<lparr>shoe := xs, rng := g\<rparr>)"

text \<open>
  A \<^verbatim>\<open>Shoe\<close> object has one attribute of its own, \<^verbatim>\<open>deck_count\<close>; the constructor stores it
  and shuffles.
\<close>

record shoe_obj =
  deck_count :: int

definition Shoe :: "int \<Rightarrow> world \<Rightarrow> shoe_obj \<times> world" where
  "Shoe dc w = (\<lparr>deck_count = dc\<rparr>, shuffle dc w)"

text \<open>\<^verbatim>\<open>list.pop()\<close>: removes and returns the last item, \<open>IndexError\<close> on an empty list.\<close>

definition pop :: "world \<Rightarrow> error + (card \<times> world)" where
  "pop w =
     (case shoe w of
        [] \<Rightarrow> Inl IndexError
      | _ # _ \<Rightarrow> Inr (last (shoe w), w\<lparr>shoe := butlast (shoe w)\<rparr>))"

definition deal_card :: "shoe_obj \<Rightarrow> world \<Rightarrow> error + (card \<times> world)" where
  "deal_card self w =
     pop (if is_empty w then emit ShoeReshuffled (shuffle (deck_count self) w) else w)"

section \<open>Player\<close>

lemma py_input_stdin:
  "py_input p w = Inr (l, w') \<Longrightarrow> stdin w = l # stdin w'"
  by (auto simp: py_input_def emit_def split: list.splits)

text \<open>
  \<^verbatim>\<open>Player.place_bet\<close>, with the interpreter's \<^verbatim>\<open>int\<close> on a line of input as \<open>int_of\<close>
  (\<open>None\<close> when it raises \<open>ValueError\<close>) and \<^verbatim>\<open>self.balance\<close> as \<open>bal\<close>. Every pass of the
  \<^verbatim>\<open>while True\<close> loop reads one line; only \<open>ValueError\<close> is caught.
\<close>

function place_bet :: "(string \<Rightarrow> int option) \<Rightarrow> int \<Rightarrow> world \<Rightarrow> error + (int \<times> world)" where
  "place_bet int_of bal w =
     (case py_input (BetPrompt bal) w of
        Inl e \<Rightarrow> Inl e
      | Inr (l, w1) \<Rightarrow>
          (case int_of l of
             None \<Rightarrow> place_bet int_of bal (emit BetNotANumber w1)
           | Some bet \<Rightarrow>
               if bet < 1 then place_bet int_of bal (emit BetTooSmall w1)
               else if bet > bal then place_bet int_of bal (emit BetTooLarge w1)
               else Inr (bet, w1)))"
  by pat_completeness auto
termination
  by (relation "measure (\<lambda>(int_of, bal, w). length (stdin w))")
     (auto simp: emit_def dest: py_input_stdin)

declare place_bet.simps [simp del]

section \<open>The hard total of a hand\<close>

text \<open>
  What a card adds to a hand when every Ace counts 1. The value \<^verbatim>\<open>calculate_value\<close> returns
  is never below this total, which is what bounds the dealer's loop.
\<close>

definition hard_points :: "card \<Rightarrow> int" where
  "hard_points c =
     (if rank c \<in> set [''J'', ''Q'', ''K''] then 10
      else if rank c = ''A'' then 1
      else (case py_int (rank c) of None \<Rightarrow> 0 | Some n \<Rightarrow> n))"

definition hard_total :: "hand \<Rightarrow> int" where
  "hard_total h = sum_list (map hard_points h)"

definition debt :: "card \<Rightarrow> nat" where
  "debt c = nat (1 - hard_points c)"

lemma add_ranks_hard:
  "add_ranks h v a = Inr (v', a') \<Longrightarrow> v' - 10 * a' = v - 10 * a + hard_total h \<and> a \<le> a'"
proof (induction h arbitrary: v a)
  case Nil
  then show ?case by (simp add: hard_total_def)
next
  case (Cons c cs)
  show ?case
  proof (cases "rank c \<in> set [''J'', ''Q'', ''K'']")
    case True
    with Cons.prems have "add_ranks cs (v + 10) a = Inr (v', a')" by simp
    from Cons.IH [OF this] True show ?thesis by (simp add: hard_total_def hard_points_def)
  next
    case notface: False
    show ?thesis
    proof (cases "rank c = ''A''")
      case True
      with Cons.prems have "add_ranks cs (v + 11) (a + 1) = Inr (v', a')" by simp
      from Cons.IH [OF this] True show ?thesis by (simp add: hard_total_def hard_points_def)
    next
      case False
      with notface Cons.prems obtain n where n: "py_int (rank c) = Some n"
        and r: "add_ranks cs (v + n) a = Inr (v', a')"
        by (auto split: option.splits)
      from Cons.IH [OF r] n notface False show ?thesis
        by (simp add: hard_total_def hard_points_def)
    qed
  qed
qed

lemma adjust_aces_lower: "0 \<le> a \<Longrightarrow> v - 10 * a \<le> adjust_aces v a"
proof (induction v a rule: adjust_aces.induct)
  case (1 v a)
  show ?case
  proof (cases "v > 21 \<and> a \<noteq> 0")
    case True
    with "1.prems" have "0 \<le> a - 1" by simp
    with "1.IH" True have "v - 10 - 10 * (a - 1) \<le> adjust_aces (v - 10) (a - 1)" by simp
    with True show ?thesis by (subst adjust_aces.simps) simp
  next
    case False
    with "1.prems" show ?thesis by (subst adjust_aces.simps) auto
  qed
qed

lemma hard_total_le_value:
  assumes "calculate_value h = Inr v"
  shows "hard_total h \<le> v"
proof -
  from assms obtain v0 a0 where s: "add_ranks h 0 0 = Inr (v0, a0)" and v: "v = adjust_aces v0 a0"
    by (auto simp: calculate_value_def split: sum.splits)
  from add_ranks_hard [OF s] have "v0 - 10 * a0 = hard_total h" and "0 \<le> a0" by simp_all
  with adjust_aces_lower [of a0 v0] v show ?thesis by simp
qed

lemma mset_exchange_down:
  "k < length xs \<Longrightarrow> mset (fst (exchange_down k xs g)) = mset xs"
proof (induction k arbitrary: xs g)
  case 0
  then show ?case by simp
next
  case (Suc k)
  let ?j = "g 0 mod (Suc k + 1)"
  have "?j < Suc k + 1" by (rule mod_less_divisor) simp
  with Suc.prems have j: "?j < length xs" by linarith
  have "mset (xs[Suc k := xs ! ?j, ?j := xs ! Suc k]) = mset xs"
    using mset_swap [of ?j xs "Suc k"] Suc.prems j by simp
  moreover have "k < length (xs[Suc k := xs ! ?j, ?j := xs ! Suc k])" using Suc.prems by simp
  ultimately show ?case using Suc.IH by (simp add: randbelow_def)
qed

lemma mset_random_shuffle: "mset (fst (random_shuffle xs g)) = mset xs"
proof (cases xs)
  case Nil
  then show ?thesis by (simp add: random_shuffle_def)
next
  case (Cons x ys)
  then show ?thesis by (simp add: random_shuffle_def mset_exchange_down)
qed

lemma shoe_shuffle: "mset (shoe (shuffle dc w)) = mset (shoe w) + mset (decks dc)"
proof (cases "random_shuffle (shoe w @ decks dc) (rng w)")
  case (Pair xs g)
  with mset_random_shuffle [of "shoe w @ decks dc" "rng w"] show ?thesis
    by (simp add: shuffle_def)
qed

text \<open>The cards of the program's own decks each add at least 1 to the hard total.\<close>

lemma py_int_ranks:
  "py_int ''2'' = Some 2" "py_int ''3'' = Some 3" "py_int ''4'' = Some 4"
  "py_int ''5'' = Some 5" "py_int ''6'' = Some 6" "py_int ''7'' = Some 7"
  "py_int ''8'' = Some 8" "py_int ''9'' = Some 9" "py_int ''10'' = Some 10"
  by (simp_all add: py_int_def strip_def is_space_def signed_digits_def is_digit_def digit_of_def)

lemma hard_points_ranks: "rank c \<in> set ranks \<Longrightarrow> 1 \<le> hard_points c"
  by (auto simp: ranks_def hard_points_def py_int_ranks)

lemma rank_one_deck: "c \<in> set one_deck \<Longrightarrow> rank c \<in> set ranks"
  by (auto simp: one_deck_def Card_def)

lemma rank_decks: "c \<in> set (decks dc) \<Longrightarrow> rank c \<in> set ranks"
  by (auto simp: decks_def dest: rank_one_deck split: if_splits)

lemma debt_decks: "sum_list (map debt (decks dc)) = 0"
  by (auto simp: debt_def dest!: rank_decks hard_points_ranks)

lemma sum_list_map_mset:
  "mset xs = mset ys \<Longrightarrow> sum_list (map f xs) = (sum_list (map f ys) :: nat)"
  by (metis mset_map sum_mset_sum_list)

lemma pop_debt:
  "pop w = Inr (c, w') \<Longrightarrow> sum_list (map debt (shoe w')) + debt c = sum_list (map debt (shoe w))"
proof -
  assume p: "pop w = Inr (c, w')"
  then have ne: "shoe w \<noteq> []" and c: "c = last (shoe w)" and w': "shoe w' = butlast (shoe w)"
    by (auto simp: pop_def split: list.splits)
  from ne have "shoe w = butlast (shoe w) @ [last (shoe w)]" by simp
  then have "sum_list (map debt (shoe w)) = sum_list (map debt (butlast (shoe w) @ [last (shoe w)]))"
    by simp
  with c w' show ?thesis by simp
qed

lemma deal_card_debt:
  assumes "deal_card sh w = Inr (c, w')"
  shows "sum_list (map debt (shoe w')) + debt c = sum_list (map debt (shoe w))"
proof (cases "shoe w = []")
  case True
  let ?w1 = "emit ShoeReshuffled (shuffle (deck_count sh) w)"
  from True assms have "pop ?w1 = Inr (c, w')" by (simp add: deal_card_def is_empty_def)
  from pop_debt [OF this] have "sum_list (map debt (shoe w')) + debt c = sum_list (map debt (shoe ?w1))" .
  also have "shoe ?w1 = shoe (shuffle (deck_count sh) w)" by (simp add: emit_def)
  also have "sum_list (map debt (shoe (shuffle (deck_count sh) w))) = sum_list (map debt (decks (deck_count sh)))"
    by (rule sum_list_map_mset) (simp add: shoe_shuffle True)
  finally show ?thesis using True by (simp add: debt_decks)
next
  case False
  with assms have "pop w = Inr (c, w')" by (simp add: deal_card_def is_empty_def)
  then show ?thesis by (rule pop_debt)
qed

section \<open>Dealer\<close>

text \<open>
  \<^verbatim>\<open>Dealer.play_turn(self, shoe)\<close>, with the dealer's hand for \<^verbatim>\<open>self\<close>. The loop ends for every
  hand and every shoe: the sum of what the hand still lacks to a hard total of 17 and of what
  the cards in the shoe could take away from it falls with each card drawn.
\<close>

function play_turn :: "hand \<Rightarrow> shoe_obj \<Rightarrow> world \<Rightarrow> error + (hand \<times> world)" where
  "play_turn h sh w =
     (case calculate_value h of
        Inl e \<Rightarrow> Inl e
      | Inr v \<Rightarrow>
          if v < 17 then
            (case deal_card sh w of
               Inl e \<Rightarrow> Inl e
             | Inr (c, w1) \<Rightarrow> play_turn (add_card h c) sh w1)
          else Inr (h, w))"
  by pat_completeness auto
termination
proof (relation "measure (\<lambda>(h, sh, w). nat (17 - hard_total h) + sum_list (map debt (shoe w)))",
       goal_cases)
  case 1
  show ?case by simp
next
  case (2 h sh w v x c w1)
  from 2 have v: "calculate_value h = Inr v" "v < 17" and d: "deal_card sh w = Inr (c, w1)"
    by simp_all
  from hard_total_le_value [OF v(1)] v(2) have lt: "hard_total h < 17" by simp
  from deal_card_debt [OF d] have s: "sum_list (map debt (shoe w1)) + debt c = sum_list (map debt (shoe w))" .
  have h: "hard_total (add_card h c) = hard_total h + hard_points c"
    by (simp add: hard_total_def add_card_def)
  show ?case
  proof (cases "1 \<le> hard_points c")
    case True
    then have "debt c = 0" by (simp add: debt_def)
    with s h lt True show ?thesis by simp
  next
    case False
    then have "debt c = 1 + nat (- hard_points c)" by (simp add: debt_def)
    moreover from False lt have "nat (17 - (hard_total h + hard_points c)) = nat (17 - hard_total h) + nat (- hard_points c)"
      by simp
    ultimately show ?thesis using s h by simp
  qed
qed

declare play_turn.simps [simp del]

section \<open>Table\<close>

text \<open>
  A \<^verbatim>\<open>Table\<close> owns a shoe, a player (a balance and a hand) and a dealer (a hand).
\<close>

record table =
  table_shoe :: shoe_obj
  balance :: int
  player_hand :: hand
  dealer_hand :: hand

text \<open>The constructor: \<^verbatim>\<open>Shoe()\<close> with its default of 6 decks, \<^verbatim>\<open>Player()\<close> with 100.\<close>

definition Table :: "world \<Rightarrow> table \<times> world" where
  "Table w =
     (case Shoe 6 w of
        (sh, w1) \<Rightarrow> (\<lparr>table_shoe = sh, balance = 100, player_hand = [], dealer_hand = []\<rparr>, w1))"

text \<open>\<^verbatim>\<open>print(hand)\<close>: the text of a hand holds its value, so printing computes it.\<close>

definition print_hand :: "hand \<Rightarrow> world \<Rightarrow> error + world" where
  "print_hand h w =
     (case calculate_value h of
        Inl e \<Rightarrow> Inl e
      | Inr v \<Rightarrow> Inr (emit (ShowHand h v) w))"

text \<open>\<^verbatim>\<open>Table.display_hands\<close>; \<^verbatim>\<open>cards[1:]\<close> is the list without its first item.\<close>

definition display_hands :: "table \<Rightarrow> bool \<Rightarrow> world \<Rightarrow> error + world" where
  "display_hands t hide_dealer_card w =
     (case print_hand (player_hand t) (emit YourHand w) of
        Inl e \<Rightarrow> Inl e
      | Inr w1 \<Rightarrow>
          if hide_dealer_card
          then Inr (emit (ShowHidden (drop 1 (dealer_hand t))) (emit DealersHand w1))
          else print_hand (dealer_hand t) (emit DealersHand w1))"

lemma stdin_emit [simp]: "stdin (emit m w) = stdin w"
  by (simp add: emit_def)

lemma stdin_shuffle [simp]: "stdin (shuffle dc w) = stdin w"
  by (simp add: shuffle_def split: prod.splits)

lemma stdin_deal_card: "deal_card sh w = Inr (c, w') \<Longrightarrow> stdin w' = stdin w"
  by (auto simp: deal_card_def pop_def emit_def split: list.splits if_splits)

lemma stdin_print_hand: "print_hand h w = Inr w' \<Longrightarrow> stdin w' = stdin w"
  by (auto simp: print_hand_def split: sum.splits)

lemma stdin_display_hands: "display_hands t b w = Inr w' \<Longrightarrow> stdin w' = stdin w"
  by (auto simp: display_hands_def split: sum.splits if_splits dest!: stdin_print_hand)

text \<open>
  \<^verbatim>\<open>Table.player_turn\<close>: \<open>True\<close> when the player stands, \<open>False\<close> on a bust. Each pass reads
  one line.
\<close>

function player_turn :: "table \<Rightarrow> world \<Rightarrow> error + (bool \<times> table \<times> world)" where
  "player_turn t w =
     (case display_hands t True w of
        Inl e \<Rightarrow> Inl e
      | Inr w1 \<Rightarrow>
          (case py_input HitStandPrompt w1 of
             Inl e \<Rightarrow> Inl e
           | Inr (l, w2) \<Rightarrow>
               if lower l = ''h'' then
                 (case deal_card (table_shoe t) w2 of
                    Inl e \<Rightarrow> Inl e
                  | Inr (c, w3) \<Rightarrow>
                      (case calculate_value (add_card (player_hand t) c) of
                         Inl e \<Rightarrow> Inl e
                       | Inr v \<Rightarrow>
                           if v > 21 then
                             (case print_hand (add_card (player_hand t) c) (emit YourHand w3) of
                                Inl e \<Rightarrow> Inl e
                              | Inr w4 \<Rightarrow>
                                  Inr (False, t\<lparr>player_hand := add_card (player_hand t) c\<rparr>,
                                       emit Bust w4))
                           else player_turn (t\<lparr>player_hand := add_card (player_hand t) c\<rparr>) w3))
               else if lower l = ''s'' then Inr (True, t, w2)
               else player_turn t (emit InvalidAction w2)))"
  by pat_completeness auto
termination
  by (relation "measure (\<lambda>(t, w). length (stdin w))")
     (auto dest!: stdin_display_hands py_input_stdin stdin_deal_card)

declare player_turn.simps [simp del]

text \<open>\<^verbatim>\<open>Table.determine_winner\<close>: the text of the result.\<close>

definition determine_winner :: "table \<Rightarrow> error + string" where
  "determine_winner t =
     (case calculate_value (player_hand t) of
        Inl e \<Rightarrow> Inl e
      | Inr player_value \<Rightarrow>
          (case calculate_value (dealer_hand t) of
             Inl e \<Rightarrow> Inl e
           | Inr dealer_value \<Rightarrow>
               Inr (if player_value > 21 then ''Dealer wins! You busted.''
                    else if dealer_value > 21 then ''You win! Dealer busted.''
                    else if player_value > dealer_value then ''You win!''
                    else if dealer_value > player_value then ''Dealer wins!''
                    else ''It's a tie!'')))"

text \<open>
  The parts of \<^verbatim>\<open>Table.play_round\<close>. One initial card to the player or to the dealer:
\<close>

definition deal_player :: "table \<Rightarrow> world \<Rightarrow> error + (table \<times> world)" where
  "deal_player t w =
     (case deal_card (table_shoe t) w of
        Inl e \<Rightarrow> Inl e
      | Inr (c, w1) \<Rightarrow> Inr (t\<lparr>player_hand := add_card (player_hand t) c\<rparr>, w1))"

definition deal_dealer :: "table \<Rightarrow> world \<Rightarrow> error + (table \<times> world)" where
  "deal_dealer t w =
     (case deal_card (table_shoe t) w of
        Inl e \<Rightarrow> Inl e
      | Inr (c, w1) \<Rightarrow> Inr (t\<lparr>dealer_hand := add_card (dealer_hand t) c\<rparr>, w1))"

definition deal_initial :: "table \<Rightarrow> world \<Rightarrow> error + (table \<times> world)" where
  "deal_initial t w =
     (case deal_player t w of
        Inl e \<Rightarrow> Inl e
      | Inr (t1, w1) \<Rightarrow>
          (case deal_dealer t1 w1 of
             Inl e \<Rightarrow> Inl e
           | Inr (t2, w2) \<Rightarrow>
               (case deal_player t2 w2 of
                  Inl e \<Rightarrow> Inl e
                | Inr (t3, w3) \<Rightarrow> deal_dealer t3 w3)))"

text \<open>
  The settlement, once the result is known: \<^verbatim>\<open>"You win" in result\<close> asks whether the one
  text occurs in the other.
\<close>

definition settle :: "int \<Rightarrow> string \<Rightarrow> table \<Rightarrow> world \<Rightarrow> table \<times> world" where
  "settle bet result t w =
     (if sublist ''You win'' result
      then (t\<lparr>balance := balance t + bet * 2\<rparr>, emit (YouWon (bet * 2)) (emit (Result result) w))
      else if sublist ''It's a tie'' result
      then (t\<lparr>balance := balance t + bet\<rparr>, emit TieReturned (emit (Result result) w))
      else (t, emit (YouLost bet) (emit (Result result) w)))"

text \<open>The branch of the round in which the player stood: the dealer plays, then the result.\<close>

definition dealer_phase :: "int \<Rightarrow> table \<Rightarrow> world \<Rightarrow> error + (table \<times> world)" where
  "dealer_phase bet t w =
     (case play_turn (dealer_hand t) (table_shoe t) (emit DealersTurn w) of
        Inl e \<Rightarrow> Inl e
      | Inr (h, w1) \<Rightarrow>
          (case display_hands (t\<lparr>dealer_hand := h\<rparr>) False w1 of
             Inl e \<Rightarrow> Inl e
           | Inr w2 \<Rightarrow>
               (case determine_winner (t\<lparr>dealer_hand := h\<rparr>) of
                  Inl e \<Rightarrow> Inl e
                | Inr result \<Rightarrow> Inr (settle bet result (t\<lparr>dealer_hand := h\<rparr>) w2))))"

text \<open>
  \<^verbatim>\<open>Table.play_round\<close>; \<open>int_of\<close> is the conversion \<^verbatim>\<open>place_bet\<close> applies to a line of input.
\<close>

definition play_round :: "(string \<Rightarrow> int option) \<Rightarrow> table \<Rightarrow> world \<Rightarrow> error + (table \<times> world)" where
  "play_round int_of t w =
     (case place_bet int_of (balance t) w of
        Inl e \<Rightarrow> Inl e
      | Inr (bet, w1) \<Rightarrow>
          (case deal_initial (t\<lparr>balance := balance t - bet\<rparr>) w1 of
             Inl e \<Rightarrow> Inl e
           | Inr (t2, w2) \<Rightarrow>
               (case player_turn t2 w2 of
                  Inl e \<Rightarrow> Inl e
                | Inr (stood, t3, w3) \<Rightarrow>
                    if stood then dealer_phase bet t3 w3
                    else Inr (t3, emit (YouLost bet) w3))))"

lemma stdin_place_bet:
  "place_bet int_of bal w = Inr (bet, w') \<Longrightarrow> length (stdin w') < length (stdin w)"
proof (induction int_of bal w rule: place_bet.induct)
  case (1 int_of bal w)
  from "1.prems" obtain l w1 where i: "py_input (BetPrompt bal) w = Inr (l, w1)"
    by (subst (asm) place_bet.simps) (auto split: sum.splits)
  from py_input_stdin [OF i] have lt: "length (stdin w1) < length (stdin w)" by simp
  show ?case
  proof (cases "int_of l")
    case None
    with "1.prems" i have "place_bet int_of bal (emit BetNotANumber w1) = Inr (bet, w')"
      by (subst (asm) place_bet.simps) simp
    from "1.IH"(1) [OF i refl None this] lt show ?thesis by simp
  next
    case (Some b)
    show ?thesis
    proof (cases "b < 1")
      case True
      with "1.prems" i Some have "place_bet int_of bal (emit BetTooSmall w1) = Inr (bet, w')"
        by (subst (asm) place_bet.simps) simp
      from "1.IH"(2) [OF i refl Some True this] lt show ?thesis by simp
    next
      case small: False
      show ?thesis
      proof (cases "b > bal")
        case True
        with "1.prems" i Some small have "place_bet int_of bal (emit BetTooLarge w1) = Inr (bet, w')"
          by (subst (asm) place_bet.simps) simp
        from "1.IH"(3) [OF i refl Some small True this] lt show ?thesis by simp
      next
        case False
        with "1.prems" i Some small have "w' = w1"
          by (subst (asm) place_bet.simps) simp
        with lt show ?thesis by simp
      qed
    qed
  qed
qed

lemma stdin_play_turn: "play_turn h sh w = Inr (h', w') \<Longrightarrow> stdin w' = stdin w"
proof (induction h sh w rule: play_turn.induct)
  case (1 h sh w)
  from "1.prems" obtain v where v: "calculate_value h = Inr v"
    by (subst (asm) play_turn.simps) (auto split: sum.splits)
  show ?case
  proof (cases "v < 17")
    case True
    with "1.prems" v obtain c w1 where d: "deal_card sh w = Inr (c, w1)"
      and r: "play_turn (add_card h c) sh w1 = Inr (h', w')"
      by (subst (asm) play_turn.simps) (auto split: sum.splits)
    from "1.IH" [OF v True d refl r] stdin_deal_card [OF d] show ?thesis by simp
  next
    case False
    with "1.prems" v show ?thesis by (subst (asm) play_turn.simps) simp
  qed
qed

lemma stdin_player_turn:
  "player_turn t w = Inr (b, t', w') \<Longrightarrow> length (stdin w') < length (stdin w)"
proof (induction t w rule: player_turn.induct)
  case (1 t w)
  from "1.prems" obtain w1 l w2 where dh: "display_hands t True w = Inr w1"
    and i: "py_input HitStandPrompt w1 = Inr (l, w2)"
    by (subst (asm) player_turn.simps) (auto split: sum.splits)
  from py_input_stdin [OF i] have "length (stdin w1) = Suc (length (stdin w2))" by simp
  with stdin_display_hands [OF dh] have lt: "length (stdin w2) < length (stdin w)" by simp
  show ?case
  proof (cases "lower l = ''h''")
    case True
    with "1.prems" dh i obtain c w3 v where d: "deal_card (table_shoe t) w2 = Inr (c, w3)"
      and v: "calculate_value (add_card (player_hand t) c) = Inr v"
      by (subst (asm) player_turn.simps) (auto split: sum.splits)
    from stdin_deal_card [OF d] lt have lt3: "length (stdin w3) < length (stdin w)" by simp
    show ?thesis
    proof (cases "v > 21")
      case bust: True
      with "1.prems" dh i True d v obtain w4
        where p: "print_hand (add_card (player_hand t) c) (emit YourHand w3) = Inr w4"
          and w': "w' = emit Bust w4"
        by (subst (asm) player_turn.simps) (auto split: sum.splits)
      from stdin_print_hand [OF p] w' lt3 show ?thesis by simp
    next
      case False
      with "1.prems" dh i True d v
      have r: "player_turn (t\<lparr>player_hand := add_card (player_hand t) c\<rparr>) w3 = Inr (b, t', w')"
        by (subst (asm) player_turn.simps) simp
      from "1.IH"(1) [OF dh i refl True d refl v False r] lt3 show ?thesis by simp
    qed
  next
    case noth: False
    show ?thesis
    proof (cases "lower l = ''s''")
      case True
      with "1.prems" dh i noth have "w' = w2" by (subst (asm) player_turn.simps) simp
      with lt show ?thesis by simp
    next
      case False
      with "1.prems" dh i noth have r: "player_turn t (emit InvalidAction w2) = Inr (b, t', w')"
        by (subst (asm) player_turn.simps) simp
      from "1.IH"(2) [OF dh i refl noth False r] lt show ?thesis by simp
    qed
  qed
qed

lemma stdin_settle: "settle bet result t w = (t', w') \<Longrightarrow> stdin w' = stdin w"
  by (auto simp: settle_def split: if_splits)

lemma stdin_dealer_phase: "dealer_phase bet t w = Inr (t', w') \<Longrightarrow> stdin w' = stdin w"
  by (auto simp: dealer_phase_def split: sum.splits
      dest!: stdin_play_turn stdin_display_hands stdin_settle)

lemma stdin_deal_initial: "deal_initial t w = Inr (t', w') \<Longrightarrow> stdin w' = stdin w"
  by (auto simp: deal_initial_def deal_player_def deal_dealer_def split: sum.splits
      dest!: stdin_deal_card)

lemma stdin_play_round:
  assumes "play_round int_of t w = Inr (t', w')"
  shows "length (stdin w') < length (stdin w)"
proof -
  from assms obtain bet w1 t2 w2 stood t3 w3
    where pb: "place_bet int_of (balance t) w = Inr (bet, w1)"
      and di: "deal_initial (t\<lparr>balance := balance t - bet\<rparr>) w1 = Inr (t2, w2)"
      and pt: "player_turn t2 w2 = Inr (stood, t3, w3)"
      and fin: "(if stood then dealer_phase bet t3 w3 else Inr (t3, emit (YouLost bet) w3)) = Inr (t', w')"
    by (auto simp: play_round_def split: sum.splits)
  from fin have "stdin w' = stdin w3"
    by (auto split: if_splits dest: stdin_dealer_phase)
  with stdin_place_bet [OF pb] stdin_deal_initial [OF di] stdin_player_turn [OF pt]
  show ?thesis by simp
qed

text \<open>
  The \<^verbatim>\<open>while self.player.balance > 0\<close> loop of \<^verbatim>\<open>Table.play_table\<close>. A round reads at least
  one line, so the loop ends with the input.
\<close>

function table_loop :: "(string \<Rightarrow> int option) \<Rightarrow> table \<Rightarrow> world \<Rightarrow> error + (table \<times> world)" where
  "table_loop int_of t w =
     (if balance t > 0 then
        (case play_round int_of t w of
           Inl e \<Rightarrow> Inl e
         | Inr (t1, w1) \<Rightarrow>
             if balance t1 = 0 then Inr (t1, emit OutOfMoney w1)
             else
               (case py_input PlayAgainPrompt w1 of
                  Inl e \<Rightarrow> Inl e
                | Inr (l, w2) \<Rightarrow>
                    if lower l \<noteq> ''y'' then Inr (t1, emit (Thanks (balance t1)) w2)
                    else table_loop int_of (t1\<lparr>player_hand := [], dealer_hand := []\<rparr>) w2))
      else Inr (t, w))"
  by pat_completeness auto
termination
proof (relation "measure (\<lambda>(int_of, t, w). length (stdin w))", goal_cases)
  case 1
  show ?case by simp
next
  case (2 int_of t w x t1 w1 y l w2)
  then have "play_round int_of t w = Inr (t1, w1)" and "py_input PlayAgainPrompt w1 = Inr (l, w2)"
    by simp_all
  from stdin_play_round [OF this(1)] py_input_stdin [OF this(2)] show ?case by simp
qed

declare table_loop.simps [simp del]

definition play_table :: "(string \<Rightarrow> int option) \<Rightarrow> table \<Rightarrow> world \<Rightarrow> error + (table \<times> world)" where
  "play_table int_of t w = table_loop int_of t (emit Policy (emit Welcome w))"

section \<open>Definitions for the properties\<close>

text \<open>
  The value as the specification words it. A card's points: a numeric card its face value,
  a face card 10, an Ace 11.
\<close>

definition spec_points :: "string \<Rightarrow> int" where
  "spec_points r =
     (if r = ''2'' then 2 else if r = ''3'' then 3 else if r = ''4'' then 4
      else if r = ''5'' then 5 else if r = ''6'' then 6 else if r = ''7'' then 7
      else if r = ''8'' then 8 else if r = ''9'' then 9 else if r = ''10'' then 10
      else if r = ''J'' \<or> r = ''Q'' \<or> r = ''K'' then 10
      else if r = ''A'' then 11 else 0)"

text \<open>
  Subtract 10 for an Ace while the total exceeds 21 and an Ace not yet reduced remains:
  \<open>k\<close> counts the Aces that remain.
\<close>

fun soften :: "int \<Rightarrow> nat \<Rightarrow> int" where
  "soften tot 0 = tot"
| "soften tot (Suc k) = (if tot > 21 then soften (tot - 10) k else tot)"

definition spec_value :: "hand \<Rightarrow> int" where
  "spec_value h =
     soften (sum_list (map (\<lambda>c. spec_points (rank c)) h))
            (length (filter (\<lambda>c. rank c = ''A'') h))"

text \<open>
  A card \<^verbatim>\<open>calculate_value\<close> can score (any other raises \<open>ValueError\<close>), and what it adds to
  the total before the Aces are adjusted.
\<close>

definition scorable :: "card \<Rightarrow> bool" where
  "scorable c = (rank c \<in> set [''J'', ''Q'', ''K'', ''A''] \<or> py_int (rank c) \<noteq> None)"

definition soft_points :: "card \<Rightarrow> int" where
  "soft_points c =
     (if rank c \<in> set [''J'', ''Q'', ''K''] then 10
      else if rank c = ''A'' then 11
      else (case py_int (rank c) of None \<Rightarrow> 0 | Some n \<Rightarrow> n))"

text \<open>
  The first line of the input that \<open>int_of\<close> reads as a valid bet for the balance, with the
  lines after it.
\<close>

fun first_valid :: "(string \<Rightarrow> int option) \<Rightarrow> int \<Rightarrow> string list \<Rightarrow> (int \<times> string list) option" where
  "first_valid int_of bal [] = None"
| "first_valid int_of bal (l # ls) =
     (case int_of l of
        None \<Rightarrow> first_valid int_of bal ls
      | Some b \<Rightarrow> if 1 \<le> b \<and> b \<le> bal then Some (b, ls) else first_valid int_of bal ls)"

text \<open>\<open>n\<close> calls of \<^verbatim>\<open>deal_card\<close> in a row, on one shoe.\<close>

fun deal_cards :: "nat \<Rightarrow> shoe_obj \<Rightarrow> world \<Rightarrow> error + (card list \<times> world)" where
  "deal_cards 0 sh w = Inr ([], w)"
| "deal_cards (Suc n) sh w =
     (case deal_card sh w of
        Inl e \<Rightarrow> Inl e
      | Inr (c, w1) \<Rightarrow>
          (case deal_cards n sh w1 of
             Inl e \<Rightarrow> Inl e
           | Inr (cs, w2) \<Rightarrow> Inr (c # cs, w2)))"

text \<open>
  The payout as the specification words it: nothing when the player busts, whatever the
  dealer holds; twice the bet when the dealer busts or the player's value is higher; nothing
  when the dealer's value is higher; the bet on equal values.
\<close>

definition spec_payout :: "int \<Rightarrow> int \<Rightarrow> int \<Rightarrow> int" where
  "spec_payout bet pv dv =
     (if 21 < pv then 0
      else if 21 < dv then 2 * bet
      else if dv < pv then 2 * bet
      else if pv < dv then 0
      else bet)"

section \<open>The value of a hand\<close>

lemma add_ranks_standard:
  "\<forall>c\<in>set h. rank c \<in> set ranks \<Longrightarrow>
   add_ranks h v a =
     Inr (v + sum_list (map (\<lambda>c. spec_points (rank c)) h),
          a + int (length (filter (\<lambda>c. rank c = ''A'') h)))"
proof (induction h arbitrary: v a)
  case Nil
  then show ?case by simp
next
  case (Cons c cs)
  from Cons.prems have c: "rank c \<in> set ranks" and cs: "\<forall>c\<in>set cs. rank c \<in> set ranks"
    by simp_all
  from c show ?case
    unfolding ranks_def
    by (auto simp: Cons.IH [OF cs] spec_points_def py_int_ranks)
qed

lemma adjust_aces_soften: "adjust_aces v (int k) = soften v k"
proof (induction k arbitrary: v)
  case 0
  show ?case by (subst adjust_aces.simps) simp
next
  case (Suc k)
  have "int (Suc k) - 1 = int k" by simp
  with Suc.IH [of "v - 10"] show ?case by (subst adjust_aces.simps) simp
qed

lemma calculate_value_standard:
  "\<forall>c\<in>set h. rank c \<in> set ranks \<Longrightarrow> calculate_value h = Inr (spec_value h)"
  by (simp add: calculate_value_def add_ranks_standard spec_value_def adjust_aces_soften)

text \<open>
  C1. For every hand of cards of the ranks 2 to 10, J, Q, K and A, \<^verbatim>\<open>calculate_value\<close> returns
  the sum of the card values (numeric cards at face value, J, Q and K at 10, every Ace at 11)
  less 10 for an Ace while the total exceeds 21 and an Ace not yet reduced remains. In
  particular A, A, A, 8 is worth 21; A, A, 9 is worth 21; K, Q is worth 20; and 2, 3, 4, 5, 6
  is worth 20, whatever the suits.
\<close>

theorem calculate_value_soft_total:
  assumes "\<forall>c\<in>set h. rank c \<in> set ranks"
  shows "calculate_value h =
           Inr (soften (sum_list (map (\<lambda>c. spec_points (rank c)) h))
                       (length (filter (\<lambda>c. rank c = ''A'') h)))
         \<and> calculate_value h = Inr (spec_value h)
         \<and> calculate_value [Card ''A'' s1, Card ''A'' s2, Card ''A'' s3, Card ''8'' s4] = Inr 21
         \<and> calculate_value [Card ''A'' s1, Card ''A'' s2, Card ''9'' s3] = Inr 21
         \<and> calculate_value [Card ''K'' s1, Card ''Q'' s2] = Inr 20
         \<and> calculate_value [Card ''2'' s1, Card ''3'' s2, Card ''4'' s3, Card ''5'' s4,
                             Card ''6'' s5] = Inr 20"
proof -
  have general: "calculate_value h = Inr (spec_value h)"
    using assms by (rule calculate_value_standard)
  have a: "calculate_value [Card ''A'' s1, Card ''A'' s2, Card ''A'' s3, Card ''8'' s4] = Inr 21"
    by (simp add: calculate_value_standard ranks_def Card_def spec_value_def spec_points_def)
  have b: "calculate_value [Card ''A'' s1, Card ''A'' s2, Card ''9'' s3] = Inr 21"
    by (simp add: calculate_value_standard ranks_def Card_def spec_value_def spec_points_def)
  have c: "calculate_value [Card ''K'' s1, Card ''Q'' s2] = Inr 20"
    by (simp add: calculate_value_standard ranks_def Card_def spec_value_def spec_points_def)
  have d: "calculate_value [Card ''2'' s1, Card ''3'' s2, Card ''4'' s3, Card ''5'' s4,
                            Card ''6'' s5] = Inr 20"
    by (simp add: calculate_value_standard ranks_def Card_def spec_value_def spec_points_def)
  from general a b c d show ?thesis by (simp add: spec_value_def)
qed

theorem calculate_value_soft_total_witness:
  "set (map rank [Card ''10'' ''S'', Card ''A'' ''H'']) \<subseteq> set ranks
   \<and> calculate_value [Card ''10'' ''S'', Card ''A'' ''H''] = Inr 21
   \<and> spec_value [Card ''10'' ''S'', Card ''A'' ''H''] = 21
   \<and> set (map rank [Card ''A'' ''S'', Card ''K'' ''H'', Card ''7'' ''D'']) \<subseteq> set ranks
   \<and> calculate_value [Card ''A'' ''S'', Card ''K'' ''H'', Card ''7'' ''D''] = Inr 18"
proof -
  have h1: "\<forall>c\<in>set [Card ''10'' ''S'', Card ''A'' ''H'']. rank c \<in> set ranks"
    by (simp add: Card_def ranks_def)
  have h2: "\<forall>c\<in>set [Card ''A'' ''S'', Card ''K'' ''H'', Card ''7'' ''D'']. rank c \<in> set ranks"
    by (simp add: Card_def ranks_def)
  from calculate_value_soft_total [OF h1] calculate_value_soft_total [OF h2]
  show ?thesis
    by (simp add: Card_def ranks_def spec_value_def spec_points_def)
qed

subsection \<open>The order of the cards\<close>

lemma add_ranks_all:
  "add_ranks h v a =
     (if \<forall>c\<in>set h. scorable c
      then Inr (v + sum_list (map soft_points h),
                a + int (length (filter (\<lambda>c. rank c = ''A'') h)))
      else Inl ValueError)"
proof (induction h arbitrary: v a)
  case Nil
  show ?case by simp
next
  case (Cons c cs)
  show ?case
  proof (cases "rank c \<in> set [''J'', ''Q'', ''K'']")
    case True
    then have "scorable c" and "soft_points c = 10" and "rank c \<noteq> ''A''"
      by (auto simp: scorable_def soft_points_def)
    with True show ?thesis by (simp add: Cons.IH)
  next
    case notface: False
    show ?thesis
    proof (cases "rank c = ''A''")
      case True
      with notface have "scorable c" and "soft_points c = 11"
        by (auto simp: scorable_def soft_points_def)
      with notface True show ?thesis by (simp add: Cons.IH)
    next
      case notace: False
      show ?thesis
      proof (cases "py_int (rank c)")
        case None
        with notface notace have "\<not> scorable c" by (auto simp: scorable_def)
        with notface notace None show ?thesis by simp
      next
        case (Some n)
        with notface notace have "scorable c" and "soft_points c = n"
          by (auto simp: scorable_def soft_points_def)
        with notface notace Some show ?thesis by (simp add: Cons.IH)
      qed
    qed
  qed
qed

lemma sum_list_soft_points_mset:
  "mset h = mset h' \<Longrightarrow> sum_list (map soft_points h) = sum_list (map soft_points h')"
  by (metis mset_map sum_mset_sum_list)

lemma count_aces_mset:
  "mset h = mset h' \<Longrightarrow>
   length (filter (\<lambda>c. rank c = ''A'') h) = length (filter (\<lambda>c. rank c = ''A'') h')"
  by (metis mset_filter size_mset)

text \<open>
  C6. For every hand and every permutation of its cards, \<^verbatim>\<open>calculate_value\<close> returns the same
  result: it depends on the multiset of the cards only, not on the order in which they were
  added. (This holds for every hand, also one with a rank that is not a number: the result
  is then \<open>ValueError\<close> in every order.)
\<close>

theorem calculate_value_permutation:
  assumes "mset h = mset h'"
  shows "calculate_value h = calculate_value h'"
proof -
  from assms have "set h = set h'" by (rule mset_eq_setD)
  with sum_list_soft_points_mset [OF assms] count_aces_mset [OF assms]
  show ?thesis by (simp add: calculate_value_def add_ranks_all)
qed

theorem calculate_value_permutation_witness:
  "mset [Card ''A'' ''S'', Card ''9'' ''H'', Card ''A'' ''D'']
     = mset [Card ''9'' ''H'', Card ''A'' ''D'', Card ''A'' ''S'']
   \<and> calculate_value [Card ''A'' ''S'', Card ''9'' ''H'', Card ''A'' ''D'']
     = calculate_value [Card ''9'' ''H'', Card ''A'' ''D'', Card ''A'' ''S'']
   \<and> calculate_value [Card ''9'' ''H'', Card ''A'' ''D'', Card ''A'' ''S''] = Inr 21"
proof -
  have m: "mset [Card ''A'' ''S'', Card ''9'' ''H'', Card ''A'' ''D'']
             = mset [Card ''9'' ''H'', Card ''A'' ''D'', Card ''A'' ''S'']"
    by (simp add: add_mset_commute)
  have v: "calculate_value [Card ''9'' ''H'', Card ''A'' ''D'', Card ''A'' ''S''] = Inr 21"
    by (simp add: calculate_value_standard ranks_def Card_def spec_value_def spec_points_def)
  from m calculate_value_permutation [OF m] v show ?thesis by simp
qed

section \<open>Betting\<close>

lemma place_bet_eof: "stdin w = [] \<Longrightarrow> place_bet int_of bal w = Inl EOFError"
  by (subst place_bet.simps) (simp add: py_input_def)

lemma place_bet_line:
  "stdin w = l # ls \<Longrightarrow>
   place_bet int_of bal w =
     (case int_of l of
        None \<Rightarrow> place_bet int_of bal (emit BetNotANumber ((emit (BetPrompt bal) w)\<lparr>stdin := ls\<rparr>))
      | Some b \<Rightarrow>
          if b < 1
          then place_bet int_of bal (emit BetTooSmall ((emit (BetPrompt bal) w)\<lparr>stdin := ls\<rparr>))
          else if b > bal
          then place_bet int_of bal (emit BetTooLarge ((emit (BetPrompt bal) w)\<lparr>stdin := ls\<rparr>))
          else Inr (b, (emit (BetPrompt bal) w)\<lparr>stdin := ls\<rparr>))"
  by (subst place_bet.simps) (simp add: py_input_def)

lemma stdin_after_prompt [simp]: "stdin (emit m (w'\<lparr>stdin := ls\<rparr>)) = ls"
  by (simp add: emit_def)

lemma place_bet_first_valid:
  "stdin w = ls \<Longrightarrow>
   (case first_valid int_of bal ls of
      None \<Rightarrow> place_bet int_of bal w = Inl EOFError
    | Some (b, rest) \<Rightarrow> \<exists>w'. place_bet int_of bal w = Inr (b, w') \<and> stdin w' = rest)"
proof (induction ls arbitrary: w)
  case Nil
  then show ?case by (simp add: place_bet_eof)
next
  case (Cons l ls)
  note line = place_bet_line [OF Cons.prems, of int_of bal]
  let ?w1 = "(emit (BetPrompt bal) w)\<lparr>stdin := ls\<rparr>"
  have again: "place_bet int_of bal w = place_bet int_of bal (emit m ?w1) \<Longrightarrow> first_valid int_of bal (l # ls) = first_valid int_of bal ls \<Longrightarrow> ?case" for m
  proof -
    assume eq: "place_bet int_of bal w = place_bet int_of bal (emit m ?w1)"
      and fv: "first_valid int_of bal (l # ls) = first_valid int_of bal ls"
    have "stdin (emit m ?w1) = ls" by simp
    from Cons.IH [OF this] show ?case unfolding eq fv .
  qed
  show ?case
  proof (cases "int_of l")
    case None
    with line show ?thesis by (intro again [of BetNotANumber]) simp_all
  next
    case (Some b)
    consider "b < 1" | "1 \<le> b" "bal < b" | "1 \<le> b" "b \<le> bal" by linarith
    then show ?thesis
    proof cases
      case 1
      with Some line show ?thesis by (intro again [of BetTooSmall]) simp_all
    next
      case 2
      with Some line show ?thesis by (intro again [of BetTooLarge]) simp_all
    next
      case 3
      with Some line show ?thesis by (simp add: emit_def)
    qed
  qed
qed

lemma first_valid_range: "first_valid int_of bal ls = Some (b, rest) \<Longrightarrow> 1 \<le> b \<and> b \<le> bal"
  by (induction ls) (auto split: option.splits if_splits)

lemma place_bet_range:
  assumes "place_bet int_of bal w = Inr (b, w')"
  shows "1 \<le> b \<and> b \<le> bal"
proof (cases "first_valid int_of bal (stdin w)")
  case None
  with place_bet_first_valid [OF refl, of int_of bal w] assms show ?thesis by simp
next
  case (Some p)
  obtain b' rest where p: "p = (b', rest)" by (cases p)
  with Some place_bet_first_valid [OF refl, of int_of bal w] assms have "b' = b" by auto
  with Some p first_valid_range [of int_of bal "stdin w" b rest] show ?thesis by simp
qed

lemma py_int_examples:
  "py_int ''abc'' = None" "py_int ''0'' = Some 0" "py_int ''1000'' = Some 1000"
  "py_int ''50'' = Some 50" "py_int '''' = None" "py_int ''-5'' = Some (- 5)"
  "py_int '' 7 '' = Some 7" "py_int ''1_0'' = Some 10" "py_int ''1__0'' = None"
  "py_int ''5.0'' = None"
  by (simp_all add: py_int_def strip_def is_space_def signed_digits_def is_digit_def digit_of_def)

text \<open>
  C3. \<^verbatim>\<open>place_bet\<close> prompts again and again until a line is an integer \<open>b\<close> with
  \<open>1 \<le> b \<le> balance\<close>. On a line that is not a number (\<^verbatim>\<open>int\<close> raises \<open>ValueError\<close>), or a
  number below 1 or above the balance, it prints its complaint and prompts again: it neither
  raises nor returns, so the round does not get past betting. Its result is the first valid
  line of the input; it never raises \<open>ValueError\<close>; and whatever it returns satisfies
  \<open>1 \<le> bet \<le> balance\<close>. This holds for every line and whatever \<^verbatim>\<open>int\<close> makes of it: the
  conversion \<open>int_of\<close> is arbitrary. The lines "abc", "0" and "1000" are ASCII text, on which
  \<^verbatim>\<open>int\<close> is \<open>py_int\<close>: the first is not a number, the others are 0 and 1000.
\<close>

theorem place_bet_until_valid:
  "(stdin w = l # ls \<longrightarrow>
      (int_of l = None \<longrightarrow>
         place_bet int_of bal w =
           place_bet int_of bal (emit BetNotANumber ((emit (BetPrompt bal) w)\<lparr>stdin := ls\<rparr>)))
    \<and> (\<forall>b. int_of l = Some b \<and> b < 1 \<longrightarrow>
         place_bet int_of bal w =
           place_bet int_of bal (emit BetTooSmall ((emit (BetPrompt bal) w)\<lparr>stdin := ls\<rparr>)))
    \<and> (\<forall>b. int_of l = Some b \<and> 1 \<le> b \<and> bal < b \<longrightarrow>
         place_bet int_of bal w =
           place_bet int_of bal (emit BetTooLarge ((emit (BetPrompt bal) w)\<lparr>stdin := ls\<rparr>)))
    \<and> (\<forall>b. int_of l = Some b \<and> 1 \<le> b \<and> b \<le> bal \<longrightarrow>
         place_bet int_of bal w = Inr (b, (emit (BetPrompt bal) w)\<lparr>stdin := ls\<rparr>)))
   \<and> (case first_valid int_of bal (stdin w) of
         None \<Rightarrow> place_bet int_of bal w = Inl EOFError
       | Some (b, rest) \<Rightarrow> \<exists>w'. place_bet int_of bal w = Inr (b, w') \<and> stdin w' = rest)
   \<and> place_bet int_of bal w \<noteq> Inl ValueError
   \<and> (\<forall>b w'. place_bet int_of bal w = Inr (b, w') \<longrightarrow> 1 \<le> b \<and> b \<le> bal)
   \<and> py_int ''abc'' = None \<and> py_int ''0'' = Some 0 \<and> py_int ''1000'' = Some 1000"
proof -
  have step: "stdin w = l # ls \<longrightarrow>
      (int_of l = None \<longrightarrow>
         place_bet int_of bal w =
           place_bet int_of bal (emit BetNotANumber ((emit (BetPrompt bal) w)\<lparr>stdin := ls\<rparr>)))
    \<and> (\<forall>b. int_of l = Some b \<and> b < 1 \<longrightarrow>
         place_bet int_of bal w =
           place_bet int_of bal (emit BetTooSmall ((emit (BetPrompt bal) w)\<lparr>stdin := ls\<rparr>)))
    \<and> (\<forall>b. int_of l = Some b \<and> 1 \<le> b \<and> bal < b \<longrightarrow>
         place_bet int_of bal w =
           place_bet int_of bal (emit BetTooLarge ((emit (BetPrompt bal) w)\<lparr>stdin := ls\<rparr>)))
    \<and> (\<forall>b. int_of l = Some b \<and> 1 \<le> b \<and> b \<le> bal \<longrightarrow>
         place_bet int_of bal w = Inr (b, (emit (BetPrompt bal) w)\<lparr>stdin := ls\<rparr>))"
  proof
    assume "stdin w = l # ls"
    from place_bet_line [OF this, of int_of bal] show "(int_of l = None \<longrightarrow>
         place_bet int_of bal w =
           place_bet int_of bal (emit BetNotANumber ((emit (BetPrompt bal) w)\<lparr>stdin := ls\<rparr>)))
    \<and> (\<forall>b. int_of l = Some b \<and> b < 1 \<longrightarrow>
         place_bet int_of bal w =
           place_bet int_of bal (emit BetTooSmall ((emit (BetPrompt bal) w)\<lparr>stdin := ls\<rparr>)))
    \<and> (\<forall>b. int_of l = Some b \<and> 1 \<le> b \<and> bal < b \<longrightarrow>
         place_bet int_of bal w =
           place_bet int_of bal (emit BetTooLarge ((emit (BetPrompt bal) w)\<lparr>stdin := ls\<rparr>)))
    \<and> (\<forall>b. int_of l = Some b \<and> 1 \<le> b \<and> b \<le> bal \<longrightarrow>
         place_bet int_of bal w = Inr (b, (emit (BetPrompt bal) w)\<lparr>stdin := ls\<rparr>))"
      by auto
  qed
  have scan: "case first_valid int_of bal (stdin w) of
         None \<Rightarrow> place_bet int_of bal w = Inl EOFError
       | Some (b, rest) \<Rightarrow> \<exists>w'. place_bet int_of bal w = Inr (b, w') \<and> stdin w' = rest"
    by (rule place_bet_first_valid [OF refl])
  from scan have noraise: "place_bet int_of bal w \<noteq> Inl ValueError"
    by (auto split: option.splits)
  have range: "\<forall>b w'. place_bet int_of bal w = Inr (b, w') \<longrightarrow> 1 \<le> b \<and> b \<le> bal"
    using place_bet_range by blast
  from step scan noraise range py_int_examples(1-3) show ?thesis by blast
qed

theorem place_bet_until_valid_witness:
  "place_bet py_int 100 \<lparr>shoe = [], rng = (\<lambda>k. 0), stdin = [''abc'', ''0'', ''1000'', ''50''], stdout = []\<rparr>
     = place_bet py_int 100 \<lparr>shoe = [], rng = (\<lambda>k. 0), stdin = [''0'', ''1000'', ''50''],
                       stdout = [BetPrompt 100, BetNotANumber]\<rparr>
   \<and> place_bet py_int 100 \<lparr>shoe = [], rng = (\<lambda>k. 0), stdin = [''abc'', ''0'', ''1000'', ''50''], stdout = []\<rparr>
     = Inr (50, \<lparr>shoe = [], rng = (\<lambda>k. 0), stdin = [],
                 stdout = [BetPrompt 100, BetNotANumber, BetPrompt 100, BetTooSmall,
                           BetPrompt 100, BetTooLarge, BetPrompt 100]\<rparr>)
   \<and> place_bet py_int 100 \<lparr>shoe = [], rng = (\<lambda>k. 0), stdin = [''abc'', ''0'', ''1000''], stdout = []\<rparr>
     = Inl EOFError
   \<and> first_valid py_int 100 [''abc'', ''0'', ''1000'', ''50''] = Some (50, [])
   \<and> place_bet (\<lambda>s. if s = [CHR 0xD9, CHR 0xA3] then Some 3 else py_int s) 100
        \<lparr>shoe = [], rng = (\<lambda>k. 0), stdin = [[CHR 0xD9, CHR 0xA3], ''7''], stdout = []\<rparr>
     = Inr (3, \<lparr>shoe = [], rng = (\<lambda>k. 0), stdin = [''7''], stdout = [BetPrompt 100]\<rparr>)"
proof -
  let ?w = "\<lambda>ls out. \<lparr>shoe = [], rng = (\<lambda>k. 0::nat), stdin = ls, stdout = out\<rparr>"
  have s1: "place_bet py_int 100 (?w [''abc'', ''0'', ''1000'', ''50''] [])
              = place_bet py_int 100 (?w [''0'', ''1000'', ''50''] [BetPrompt 100, BetNotANumber])"
    using place_bet_until_valid [of "?w [''abc'', ''0'', ''1000'', ''50''] []" "''abc''"
        "[''0'', ''1000'', ''50'']" py_int 100]
    by (simp add: py_int_examples emit_def)
  have s2: "place_bet py_int 100 (?w [''0'', ''1000'', ''50''] [BetPrompt 100, BetNotANumber])
              = place_bet py_int 100 (?w [''1000'', ''50''] [BetPrompt 100, BetNotANumber, BetPrompt 100, BetTooSmall])"
    using place_bet_until_valid [of "?w [''0'', ''1000'', ''50''] [BetPrompt 100, BetNotANumber]" "''0''"
        "[''1000'', ''50'']" py_int 100]
    by (simp add: py_int_examples emit_def)
  have s3: "place_bet py_int 100 (?w [''1000'', ''50''] [BetPrompt 100, BetNotANumber, BetPrompt 100, BetTooSmall])
              = place_bet py_int 100 (?w [''50''] [BetPrompt 100, BetNotANumber, BetPrompt 100, BetTooSmall,
                                            BetPrompt 100, BetTooLarge])"
    using place_bet_until_valid [of "?w [''1000'', ''50''] [BetPrompt 100, BetNotANumber, BetPrompt 100, BetTooSmall]"
        "''1000''" "[''50'']" py_int 100]
    by (simp add: py_int_examples emit_def)
  have s4: "place_bet py_int 100 (?w [''50''] [BetPrompt 100, BetNotANumber, BetPrompt 100, BetTooSmall,
                                            BetPrompt 100, BetTooLarge])
              = Inr (50, ?w [] [BetPrompt 100, BetNotANumber, BetPrompt 100, BetTooSmall,
                           BetPrompt 100, BetTooLarge, BetPrompt 100])"
    using place_bet_until_valid [of "?w [''50''] [BetPrompt 100, BetNotANumber, BetPrompt 100, BetTooSmall,
                                            BetPrompt 100, BetTooLarge]" "''50''" "[]" py_int 100]
    by (simp add: py_int_examples emit_def)
  have fv: "first_valid py_int 100 [''abc'', ''0'', ''1000''] = None"
    and fv': "first_valid py_int 100 [''abc'', ''0'', ''1000'', ''50''] = Some (50, [])"
    by (simp_all add: py_int_examples)
  have "case first_valid py_int 100 (stdin (?w [''abc'', ''0'', ''1000''] [])) of
          None \<Rightarrow> place_bet py_int 100 (?w [''abc'', ''0'', ''1000''] []) = Inl EOFError
        | Some (b, rest) \<Rightarrow>
            \<exists>w'. place_bet py_int 100 (?w [''abc'', ''0'', ''1000''] []) = Inr (b, w') \<and> stdin w' = rest"
    using place_bet_until_valid [of "?w [''abc'', ''0'', ''1000''] []" "''abc''" "[''0'', ''1000'']" py_int 100]
    by blast
  then have s5: "place_bet py_int 100 (?w [''abc'', ''0'', ''1000''] []) = Inl EOFError"
    by (simp add: py_int_examples)
  have s6: "place_bet (\<lambda>s. if s = [CHR 0xD9, CHR 0xA3] then Some 3 else py_int s) 100
              (?w [[CHR 0xD9, CHR 0xA3], ''7''] [])
            = Inr (3, ?w [''7''] [BetPrompt 100])"
    using place_bet_until_valid [of "?w [[CHR 0xD9, CHR 0xA3], ''7''] []" "[CHR 0xD9, CHR 0xA3]"
        "[''7'']" "\<lambda>s. if s = [CHR 0xD9, CHR 0xA3] then Some 3 else py_int s" 100]
    by (simp add: emit_def)
  from s1 s2 s3 s4 s5 s6 fv' show ?thesis by simp
qed

section \<open>The contents of the shoe\<close>

lemma length_one_deck: "length one_deck = 52"
  by (simp add: one_deck_def ranks_def suits_def)

lemma length_concat_replicate: "length (concat (replicate n xs)) = n * length xs"
  by (induction n) simp_all

lemma length_decks: "length (decks d) = 52 * nat d"
  by (simp add: decks_def length_concat_replicate length_one_deck)

lemma decks_empty: "d \<le> 0 \<Longrightarrow> decks d = []"
  by (simp add: decks_def)

lemma length_shoe_shuffle: "length (shoe (shuffle d w)) = length (shoe w) + 52 * nat d"
proof -
  have "size (mset (shoe (shuffle d w))) = size (mset (shoe w) + mset (decks d))"
    by (simp only: shoe_shuffle)
  then show ?thesis by (simp add: length_decks)
qed

lemma stdout_shuffle [simp]: "stdout (shuffle d w) = stdout w"
  by (simp add: shuffle_def split: prod.splits)

lemma deal_card_nonempty:
  "shoe w \<noteq> [] \<Longrightarrow> deal_card sh w = Inr (last (shoe w), w\<lparr>shoe := butlast (shoe w)\<rparr>)"
  by (simp add: deal_card_def is_empty_def pop_def split: list.splits)

lemma deal_card_reshuffle:
  assumes "shoe w = []" and "1 \<le> deck_count sh"
  shows "\<exists>c w'. deal_card sh w = Inr (c, w') \<and> length (shoe w') = 52 * nat (deck_count sh) - 1
           \<and> stdout w' = stdout w @ [ShoeReshuffled]"
proof -
  let ?w1 = "emit ShoeReshuffled (shuffle (deck_count sh) w)"
  have len: "length (shoe ?w1) = 52 * nat (deck_count sh)"
    using assms(1) by (simp add: emit_def length_shoe_shuffle)
  with assms(2) have ne: "shoe ?w1 \<noteq> []" by auto
  from assms(1) have "deal_card sh w = pop ?w1" by (simp add: deal_card_def is_empty_def)
  with ne have "deal_card sh w = Inr (last (shoe ?w1), ?w1\<lparr>shoe := butlast (shoe ?w1)\<rparr>)"
    by (simp add: pop_def split: list.splits)
  moreover have "length (shoe (?w1\<lparr>shoe := butlast (shoe ?w1)\<rparr>)) = 52 * nat (deck_count sh) - 1"
    using len by simp
  moreover have "stdout (?w1\<lparr>shoe := butlast (shoe ?w1)\<rparr>) = stdout w @ [ShoeReshuffled]"
    by (simp add: emit_def)
  ultimately show ?thesis by blast
qed

lemma deal_card_no_decks:
  assumes "shoe w = []" and "deck_count sh \<le> 0"
  shows "deal_card sh w = Inl IndexError"
proof -
  have "length (shoe (shuffle (deck_count sh) w)) = 0"
    using assms by (simp add: length_shoe_shuffle)
  then have "shoe (emit ShoeReshuffled (shuffle (deck_count sh) w)) = []"
    by (simp add: emit_def)
  with assms(1) show ?thesis by (simp add: deal_card_def is_empty_def pop_def)
qed

lemma deal_cards_within:
  "n \<le> length (shoe w) \<Longrightarrow>
   \<exists>cs w'. deal_cards n sh w = Inr (cs, w') \<and> length cs = n
      \<and> length (shoe w') = length (shoe w) - n \<and> stdout w' = stdout w"
proof (induction n arbitrary: w)
  case 0
  show ?case by simp
next
  case (Suc n)
  then have ne: "shoe w \<noteq> []" by auto
  let ?w1 = "w\<lparr>shoe := butlast (shoe w)\<rparr>"
  from Suc.prems have "n \<le> length (shoe ?w1)" by simp
  from Suc.IH [OF this] obtain cs w' where r: "deal_cards n sh ?w1 = Inr (cs, w')"
    and l: "length cs = n" and s: "length (shoe w') = length (shoe ?w1) - n"
    and out: "stdout w' = stdout ?w1"
    by blast
  from r have "deal_cards (Suc n) sh w = Inr (last (shoe w) # cs, w')"
    by (simp add: deal_card_nonempty [OF ne])
  with l s out show ?case by simp
qed

lemma deal_cards_append:
  "deal_cards n sh w = Inr (cs, w1) \<Longrightarrow> deal_card sh w1 = Inr (c, w2) \<Longrightarrow>
   deal_cards (Suc n) sh w = Inr (cs @ [c], w2)"
proof (induction n arbitrary: w cs)
  case 0
  then show ?case by simp
next
  case (Suc n)
  from Suc.prems(1) obtain c0 w0 cs0 where d: "deal_card sh w = Inr (c0, w0)"
    and r: "deal_cards n sh w0 = Inr (cs0, w1)" and cs: "cs = c0 # cs0"
    by (auto split: sum.splits)
  from Suc.IH [OF r Suc.prems(2)] d cs show ?case by simp
qed

lemma deal_card_removes_one:
  assumes "shoe w \<noteq> []"
  shows "\<exists>c w'. deal_card sh w = Inr (c, w') \<and> length (shoe w') + 1 = length (shoe w)
           \<and> shoe w = shoe w' @ [c] \<and> stdout w' = stdout w"
  using assms by (simp add: deal_card_nonempty)

text \<open>
  The first shoe of a process. A shoe constructed with one deck when the list of the class
  is empty holds exactly 52 cards (one of each rank and suit) after its shuffle. Each
  \<^verbatim>\<open>deal_card\<close> on a shoe that is not empty removes exactly one card, so \<open>n \<le> 52\<close> deals in a
  row leave \<open>52 - n\<close> cards and 52 deals leave none. The 53rd deal first shuffles again with
  the deck count the shoe was constructed with and then deals, leaving 51 cards; it returns a
  card, not an error, and prints the notice of the reshuffle.
\<close>

lemma shoe_one_deck_deals:
  assumes "shoe w = []" and "Shoe 1 w = (sh, w0)"
  shows "length (shoe w0) = 52
       \<and> mset (shoe w0) = mset one_deck
       \<and> (\<forall>w'. shoe w' \<noteq> [] \<longrightarrow>
             (\<exists>c w''. deal_card sh w' = Inr (c, w'') \<and> length (shoe w'') + 1 = length (shoe w')))
       \<and> (\<forall>n\<le>52. \<exists>cs w1. deal_cards n sh w0 = Inr (cs, w1) \<and> length cs = n
                        \<and> length (shoe w1) = 52 - n)
       \<and> (\<exists>cs w1. deal_cards 52 sh w0 = Inr (cs, w1) \<and> length (shoe w1) = 0
             \<and> (\<exists>c w2. deal_card sh w1 = Inr (c, w2) \<and> length (shoe w2) = 51
                    \<and> stdout w2 = stdout w1 @ [ShoeReshuffled]))
       \<and> (\<exists>cs w2. deal_cards 53 sh w0 = Inr (cs, w2) \<and> length cs = 53
             \<and> length (shoe w2) = 51)"
proof -
  from assms(2) have sh: "deck_count sh = 1" and w0: "w0 = shuffle 1 w"
    by (auto simp: Shoe_def)
  from w0 assms(1) have len: "length (shoe w0) = 52" by (simp add: length_shoe_shuffle)
  from w0 assms(1) have cards: "mset (shoe w0) = mset one_deck"
    by (simp add: shoe_shuffle decks_def)
  have one: "\<forall>w'. shoe w' \<noteq> [] \<longrightarrow>
      (\<exists>c w''. deal_card sh w' = Inr (c, w'') \<and> length (shoe w'') + 1 = length (shoe w'))"
    using deal_card_removes_one by blast
  have upto: "\<forall>n\<le>52. \<exists>cs w1. deal_cards n sh w0 = Inr (cs, w1) \<and> length cs = n
                        \<and> length (shoe w1) = 52 - n"
  proof (intro allI impI)
    fix n :: nat
    assume "n \<le> 52"
    with len have "n \<le> length (shoe w0)" by simp
    from deal_cards_within [OF this, of sh] len
    show "\<exists>cs w1. deal_cards n sh w0 = Inr (cs, w1) \<and> length cs = n \<and> length (shoe w1) = 52 - n"
      by auto
  qed
  from upto obtain cs w1 where all: "deal_cards 52 sh w0 = Inr (cs, w1)"
    and lcs: "length cs = 52" and empty: "length (shoe w1) = 0"
    by fastforce
  from empty have "shoe w1 = []" by simp
  from deal_card_reshuffle [OF this, of sh] sh obtain c w2
    where next_card: "deal_card sh w1 = Inr (c, w2)" and left: "length (shoe w2) = 51"
      and notice: "stdout w2 = stdout w1 @ [ShoeReshuffled]"
    by auto
  from deal_cards_append [OF all next_card] have "deal_cards 53 sh w0 = Inr (cs @ [c], w2)"
    by simp
  with lcs left have after: "\<exists>cs w2. deal_cards 53 sh w0 = Inr (cs, w2) \<and> length cs = 53
             \<and> length (shoe w2) = 51"
    by auto
  from all empty next_card left notice
  have at52: "\<exists>cs w1. deal_cards 52 sh w0 = Inr (cs, w1) \<and> length (shoe w1) = 0
             \<and> (\<exists>c w2. deal_card sh w1 = Inr (c, w2) \<and> length (shoe w2) = 51
                    \<and> stdout w2 = stdout w1 @ [ShoeReshuffled])"
    by blast
  from len cards one upto at52 after show ?thesis by blast
qed

lemma shoe_one_deck_deals_first_shoe:
  "shoe \<lparr>shoe = [], rng = (\<lambda>k. k), stdin = [], stdout = []\<rparr> = []
   \<and> length (shoe (snd (Shoe 1 \<lparr>shoe = [], rng = (\<lambda>k. k), stdin = [], stdout = []\<rparr>))) = 52
   \<and> (\<exists>cs w1. deal_cards 52 (fst (Shoe 1 \<lparr>shoe = [], rng = (\<lambda>k. k), stdin = [], stdout = []\<rparr>))
                  (snd (Shoe 1 \<lparr>shoe = [], rng = (\<lambda>k. k), stdin = [], stdout = []\<rparr>)) = Inr (cs, w1)
         \<and> length (shoe w1) = 0)
   \<and> (\<exists>cs w2. deal_cards 53 (fst (Shoe 1 \<lparr>shoe = [], rng = (\<lambda>k. k), stdin = [], stdout = []\<rparr>))
                  (snd (Shoe 1 \<lparr>shoe = [], rng = (\<lambda>k. k), stdin = [], stdout = []\<rparr>)) = Inr (cs, w2)
         \<and> length (shoe w2) = 51)"
proof -
  let ?w = "\<lparr>shoe = [], rng = (\<lambda>k. k), stdin = [], stdout = []\<rparr>"
  have e: "shoe ?w = []" by simp
  have p: "Shoe 1 ?w = (fst (Shoe 1 ?w), snd (Shoe 1 ?w))" by simp
  from shoe_one_deck_deals [OF e p] e show ?thesis by blast
qed

text \<open>
  C5. A freshly constructed shoe of one deck does not always hold 52 cards: the constructor
  adds its deck to the list of the class without emptying it. In a process whose first shoe
  of one deck holds 52 cards, a second shoe of one deck, constructed while the first has
  dealt nothing, holds 104 cards after its shuffle; 52 deals from it return 52 cards and
  leave 52 in the shoe, not none, and print no notice of a reshuffle.
\<close>

theorem second_shoe_holds_two_decks:
  "length (shoe (snd (Shoe 1 \<lparr>shoe = [], rng = (\<lambda>k. k), stdin = [], stdout = []\<rparr>))) = 52
   \<and> length (shoe (snd (Shoe 1
         (snd (Shoe 1 \<lparr>shoe = [], rng = (\<lambda>k. k), stdin = [], stdout = []\<rparr>))))) = 104
   \<and> (\<exists>cs w'. deal_cards 52
          (fst (Shoe 1 (snd (Shoe 1 \<lparr>shoe = [], rng = (\<lambda>k. k), stdin = [], stdout = []\<rparr>))))
          (snd (Shoe 1 (snd (Shoe 1 \<lparr>shoe = [], rng = (\<lambda>k. k), stdin = [], stdout = []\<rparr>))))
        = Inr (cs, w')
        \<and> length cs = 52 \<and> length (shoe w') = 52 \<and> stdout w' = [])"
proof -
  let ?e = "\<lparr>shoe = [], rng = (\<lambda>k. k), stdin = [], stdout = []\<rparr>"
  let ?w1 = "snd (Shoe 1 ?e)"
  let ?w2 = "snd (Shoe 1 ?w1)"
  have first: "length (shoe ?w1) = 52" by (simp add: Shoe_def length_shoe_shuffle)
  then have second: "length (shoe ?w2) = 104" by (simp add: Shoe_def length_shoe_shuffle)
  have out: "stdout ?w2 = []" by (simp add: Shoe_def)
  from second have "52 \<le> length (shoe ?w2)" by simp
  from deal_cards_within [OF this, of "fst (Shoe 1 ?w1)"] second out
  have "\<exists>cs w'. deal_cards 52 (fst (Shoe 1 ?w1)) ?w2 = Inr (cs, w')
          \<and> length cs = 52 \<and> length (shoe w') = 52 \<and> stdout w' = []"
    by auto
  with first second show ?thesis by blast
qed

text \<open>
  C10. \<^verbatim>\<open>deal_card\<close> returns a card in every state exactly when the shoe's deck count is at
  least 1: then the \<^verbatim>\<open>pop\<close> after a reshuffle finds the list non-empty. A shoe constructed with
  a deck count of 0 on an empty list stays empty, and its first \<^verbatim>\<open>deal_card\<close> raises
  \<open>IndexError\<close> from \<^verbatim>\<open>pop\<close>.
\<close>

theorem deal_card_total_iff:
  "((\<forall>w. \<exists>c w'. deal_card sh w = Inr (c, w')) \<longleftrightarrow> 1 \<le> deck_count sh)
   \<and> (1 \<le> deck_count sh \<longrightarrow> (\<exists>c w'. deal_card sh w = Inr (c, w')))
   \<and> (shoe w \<noteq> [] \<longrightarrow> (\<exists>c w'. deal_card sh w = Inr (c, w')))
   \<and> (shoe w = [] \<and> deck_count sh \<le> 0 \<longrightarrow> deal_card sh w = Inl IndexError)
   \<and> (shoe w = [] \<longrightarrow>
        deck_count (fst (Shoe 0 w)) = 0 \<and> shoe (snd (Shoe 0 w)) = []
        \<and> deal_card (fst (Shoe 0 w)) (snd (Shoe 0 w)) = Inl IndexError)"
proof -
  have pos: "\<exists>c w'. deal_card sh w = Inr (c, w')" if "1 \<le> deck_count sh" for w
  proof (cases "shoe w = []")
    case True
    from deal_card_reshuffle [OF True that] show ?thesis by blast
  next
    case False
    then show ?thesis by (simp add: deal_card_nonempty)
  qed
  have nonpos: "\<not> (\<forall>w. \<exists>c w'. deal_card sh w = Inr (c, w'))" if "\<not> 1 \<le> deck_count sh"
  proof -
    let ?w = "\<lparr>shoe = [], rng = (\<lambda>k. 0), stdin = [], stdout = []\<rparr>"
    from that have "deal_card sh ?w = Inl IndexError" by (intro deal_card_no_decks) simp_all
    then show ?thesis by (metis Inl_Inr_False)
  qed
  have iff: "(\<forall>w. \<exists>c w'. deal_card sh w = Inr (c, w')) \<longleftrightarrow> 1 \<le> deck_count sh"
    using pos nonpos by blast
  have zero: "deck_count (fst (Shoe 0 w)) = 0 \<and> shoe (snd (Shoe 0 w)) = []
        \<and> deal_card (fst (Shoe 0 w)) (snd (Shoe 0 w)) = Inl IndexError" if e: "shoe w = []"
  proof -
    have "length (shoe (shuffle 0 w)) = 0" using e by (simp add: length_shoe_shuffle)
    then have s: "shoe (snd (Shoe 0 w)) = []" by (simp add: Shoe_def)
    have d: "deck_count (fst (Shoe 0 w)) = 0" by (simp add: Shoe_def)
    from deal_card_no_decks [OF s, of "fst (Shoe 0 w)"] d s show ?thesis by simp
  qed
  from iff pos zero deal_card_no_decks [of w sh] deal_card_nonempty [of w sh]
  show ?thesis by blast
qed

theorem deal_card_total_iff_witness:
  "deal_card \<lparr>deck_count = 0\<rparr> \<lparr>shoe = [], rng = (\<lambda>k. 0), stdin = [], stdout = []\<rparr> = Inl IndexError
   \<and> shoe (snd (Shoe 0 \<lparr>shoe = [], rng = (\<lambda>k. 0), stdin = [], stdout = []\<rparr>)) = []
   \<and> deal_card (fst (Shoe 0 \<lparr>shoe = [], rng = (\<lambda>k. 0), stdin = [], stdout = []\<rparr>))
        (snd (Shoe 0 \<lparr>shoe = [], rng = (\<lambda>k. 0), stdin = [], stdout = []\<rparr>)) = Inl IndexError
   \<and> (\<exists>c w'. deal_card \<lparr>deck_count = 1\<rparr> \<lparr>shoe = [], rng = (\<lambda>k. 0), stdin = [], stdout = []\<rparr>
                = Inr (c, w'))
   \<and> deal_card \<lparr>deck_count = 0\<rparr>
        \<lparr>shoe = [Card ''K'' ''S'', Card ''5'' ''H''], rng = (\<lambda>k. 0), stdin = [], stdout = []\<rparr>
       = Inr (Card ''5'' ''H'', \<lparr>shoe = [Card ''K'' ''S''], rng = (\<lambda>k. 0), stdin = [], stdout = []\<rparr>)"
proof -
  let ?w = "\<lparr>shoe = [], rng = (\<lambda>k. 0), stdin = [], stdout = []\<rparr>"
  from deal_card_total_iff [of "\<lparr>deck_count = 0\<rparr>" ?w]
  have a: "deal_card \<lparr>deck_count = 0\<rparr> ?w = Inl IndexError"
    and b: "shoe (snd (Shoe 0 ?w)) = []"
    and c: "deal_card (fst (Shoe 0 ?w)) (snd (Shoe 0 ?w)) = Inl IndexError"
    by simp_all
  from deal_card_total_iff [of "\<lparr>deck_count = 1\<rparr>" ?w]
  have d: "\<exists>c w'. deal_card \<lparr>deck_count = 1\<rparr> ?w = Inr (c, w')" by simp
  have e: "deal_card \<lparr>deck_count = 0\<rparr>
        \<lparr>shoe = [Card ''K'' ''S'', Card ''5'' ''H''], rng = (\<lambda>k. 0), stdin = [], stdout = []\<rparr>
       = Inr (Card ''5'' ''H'', \<lparr>shoe = [Card ''K'' ''S''], rng = (\<lambda>k. 0), stdin = [], stdout = []\<rparr>)"
    by (simp add: deal_card_def is_empty_def pop_def)
  from a b c d e show ?thesis by blast
qed

text \<open>
  C8. The cards are one list of the class, so every \<^verbatim>\<open>Shoe\<close> object works on the same list:
  as long as it is not empty, a deal does not depend on which object deals. Constructing a
  shoe with deck count \<open>d\<close> adds its \<open>52 \<times> d\<close> cards to whatever the list holds. From an empty
  list that gives \<open>52 \<times> d\<close> cards, and so does a reshuffle of the emptied shoe; but a second
  shoe constructed after the first has dealt one card of its one deck finds 51 cards and
  leaves 103, which is not a multiple of 52.
\<close>

theorem shoe_list_is_shared:
  "length (shoe (snd (Shoe d w))) = length (shoe w) + 52 * nat d
   \<and> mset (shoe (snd (Shoe d w))) = mset (shoe w) + mset (decks d)
   \<and> (shoe w \<noteq> [] \<longrightarrow> deal_card sh w = deal_card sh' w)
   \<and> (shoe w = [] \<longrightarrow> length (shoe (snd (Shoe d w))) = 52 * nat d
                      \<and> length (shoe (shuffle d w)) = 52 * nat d)
   \<and> (shoe w = [] \<longrightarrow>
        (\<forall>sh1 w1 c w2 sh2 w3.
           Shoe 1 w = (sh1, w1) \<and> deal_card sh1 w1 = Inr (c, w2) \<and> Shoe 1 w2 = (sh2, w3)
           \<longrightarrow> length (shoe w2) = 51 \<and> length (shoe w3) = 103
               \<and> \<not> 52 dvd length (shoe w3)
               \<and> mset (shoe w3) = mset (shoe w2) + mset one_deck))"
proof -
  have len: "length (shoe (snd (Shoe d w))) = length (shoe w) + 52 * nat d" for d w
    by (simp add: Shoe_def length_shoe_shuffle)
  have cards: "mset (shoe (snd (Shoe d w))) = mset (shoe w) + mset (decks d)" for d w
    by (simp add: Shoe_def shoe_shuffle)
  have same: "deal_card sh w = deal_card sh' w" if "shoe w \<noteq> []"
    using that by (simp add: deal_card_nonempty)
  have two: "length (shoe w2) = 51 \<and> length (shoe w3) = 103 \<and> \<not> 52 dvd length (shoe w3)
               \<and> mset (shoe w3) = mset (shoe w2) + mset one_deck"
    if e: "shoe w = []" and s1: "Shoe 1 w = (sh1, w1)" and d: "deal_card sh1 w1 = Inr (c, w2)"
      and s2: "Shoe 1 w2 = (sh2, w3)" for sh1 w1 c w2 sh2 w3
  proof -
    from len [of 1 w] e s1 have l1: "length (shoe w1) = 52" by simp
    then have "shoe w1 \<noteq> []" by auto
    from deal_card_removes_one [OF this, of sh1] d l1 have l2: "length (shoe w2) = 51" by auto
    from len [of 1 w2] s2 l2 have l3: "length (shoe w3) = 103" by simp
    from cards [of 1 w2] s2 have "mset (shoe w3) = mset (shoe w2) + mset one_deck"
      by (simp add: decks_def)
    with l2 l3 show ?thesis by simp
  qed
  have fresh: "length (shoe (snd (Shoe d w))) = 52 * nat d
                 \<and> length (shoe (shuffle d w)) = 52 * nat d" if "shoe w = []"
    using that len [of d w] length_shoe_shuffle [of d w] by simp
  from len [of d w] cards [of d w] same fresh two
  show ?thesis by blast
qed

theorem shoe_list_is_shared_witness:
  "length (shoe (snd (Shoe 1 \<lparr>shoe = [Card ''K'' ''S'', Card ''5'' ''H''], rng = (\<lambda>k. k),
                               stdin = [], stdout = []\<rparr>))) = 54
   \<and> deal_card \<lparr>deck_count = 1\<rparr>
        \<lparr>shoe = [Card ''K'' ''S'', Card ''5'' ''H''], rng = (\<lambda>k. k), stdin = [], stdout = []\<rparr>
     = deal_card \<lparr>deck_count = 6\<rparr>
        \<lparr>shoe = [Card ''K'' ''S'', Card ''5'' ''H''], rng = (\<lambda>k. k), stdin = [], stdout = []\<rparr>
   \<and> length (shoe (snd (Shoe 2 \<lparr>shoe = [], rng = (\<lambda>k. k), stdin = [], stdout = []\<rparr>))) = 104
   \<and> length (shoe (snd (Shoe 1
        ((snd (Shoe 1 \<lparr>shoe = [], rng = (\<lambda>k. k), stdin = [], stdout = []\<rparr>))
          \<lparr>shoe := butlast (shoe (snd (Shoe 1 \<lparr>shoe = [], rng = (\<lambda>k. k), stdin = [],
                                                 stdout = []\<rparr>)))\<rparr>)))) = 103"
proof -
  let ?w = "\<lparr>shoe = [Card ''K'' ''S'', Card ''5'' ''H''], rng = (\<lambda>k. k), stdin = [], stdout = []\<rparr>"
  let ?e = "\<lparr>shoe = [], rng = (\<lambda>k. k), stdin = [], stdout = []\<rparr>"
  let ?w1 = "snd (Shoe 1 ?e)"
  let ?w2 = "?w1\<lparr>shoe := butlast (shoe ?w1)\<rparr>"
  from shoe_list_is_shared [of 1 ?w "\<lparr>deck_count = 1\<rparr>" "\<lparr>deck_count = 6\<rparr>"]
  have a: "length (shoe (snd (Shoe 1 ?w))) = 54"
    and b: "deal_card \<lparr>deck_count = 1\<rparr> ?w = deal_card \<lparr>deck_count = 6\<rparr> ?w"
    by simp_all
  from shoe_list_is_shared [of 2 ?e] have c: "length (shoe (snd (Shoe 2 ?e))) = 104" by simp
  from shoe_list_is_shared [of 1 ?e] have "length (shoe ?w1) = 52" by simp
  then have "shoe ?w1 \<noteq> []" by auto
  then have d: "deal_card (fst (Shoe 1 ?e)) ?w1 = Inr (last (shoe ?w1), ?w2)"
    by (rule deal_card_nonempty)
  have p1: "Shoe 1 ?e = (fst (Shoe 1 ?e), ?w1)" and p2: "Shoe 1 ?w2 = (fst (Shoe 1 ?w2), snd (Shoe 1 ?w2))"
    by simp_all
  have e: "shoe ?e = []" by simp
  from shoe_list_is_shared [of 1 ?e] e p1 d p2 have "length (shoe (snd (Shoe 1 ?w2))) = 103"
    by blast
  with a b c show ?thesis by blast
qed

section \<open>The dealer's turn\<close>

lemma play_turn_stand:
  "calculate_value h = Inr v \<Longrightarrow> 17 \<le> v \<Longrightarrow> play_turn h sh w = Inr (h, w)"
  by (subst play_turn.simps) simp

lemma play_turn_hit:
  "calculate_value h = Inr v \<Longrightarrow> v < 17 \<Longrightarrow>
   play_turn h sh w =
     (case deal_card sh w of
        Inl e \<Rightarrow> Inl e
      | Inr (c, w1) \<Rightarrow> play_turn (add_card h c) sh w1)"
  by (subst play_turn.simps) simp

lemma play_turn_result:
  "play_turn h sh w = Inr (h', w') \<Longrightarrow>
   \<exists>ds. h' = h @ ds
      \<and> (\<forall>k<length ds. \<exists>v. calculate_value (h @ take k ds) = Inr v \<and> v < 17)
      \<and> (\<exists>v'. calculate_value h' = Inr v' \<and> 17 \<le> v')"
proof (induction h sh w rule: play_turn.induct)
  case (1 h sh w)
  from "1.prems" obtain v where v: "calculate_value h = Inr v"
    by (subst (asm) play_turn.simps) (auto split: sum.splits)
  show ?case
  proof (cases "v < 17")
    case True
    with "1.prems" v obtain c w1 where d: "deal_card sh w = Inr (c, w1)"
      and r: "play_turn (add_card h c) sh w1 = Inr (h', w')"
      by (auto simp: play_turn_hit split: sum.splits)
    from "1.IH" [OF v True d refl r] obtain ds where h': "h' = add_card h c @ ds"
      and below: "\<forall>k<length ds. \<exists>u. calculate_value (add_card h c @ take k ds) = Inr u \<and> u < 17"
      and final: "\<exists>v'. calculate_value h' = Inr v' \<and> 17 \<le> v'"
      by blast
    have "\<exists>u. calculate_value (h @ take k (c # ds)) = Inr u \<and> u < 17" if "k < length (c # ds)" for k
    proof (cases k)
      case 0
      with v True show ?thesis by simp
    next
      case (Suc j)
      with that have "j < length ds" by simp
      with below Suc show ?thesis by (simp add: add_card_def)
    qed
    with h' final show ?thesis by (intro exI [of _ "c # ds"]) (simp add: add_card_def)
  next
    case False
    with "1.prems" v have "h' = h" by (simp add: play_turn_stand)
    with v False show ?thesis by (intro exI [of _ "[]"]) simp
  qed
qed

lemma value_examples:
  "calculate_value [Card ''K'' ''S'', Card ''6'' ''H''] = Inr 16"
  "calculate_value [Card ''K'' ''S'', Card ''6'' ''H'', Card ''5'' ''D''] = Inr 21"
  "calculate_value [Card ''A'' ''S'', Card ''6'' ''H''] = Inr 17"
  "calculate_value [Card ''10'' ''S'', Card ''7'' ''H''] = Inr 17"
  by (simp_all add: calculate_value_standard ranks_def Card_def spec_value_def spec_points_def)

text \<open>
  C4. \<^verbatim>\<open>Dealer.play_turn\<close> draws exactly while the value of the dealer's hand is below 17. At a
  value of 17 or more, soft or hard, it returns at once, with the hand and the shoe as they
  were. At a value below 17 it deals one card to the hand and goes on. When it returns, the
  cards it drew were each drawn at a value below 17, and the value of the hand is at least 17.
\<close>

theorem play_turn_policy:
  "(\<forall>v. calculate_value h = Inr v \<and> 17 \<le> v \<longrightarrow> play_turn h sh w = Inr (h, w))
   \<and> (\<forall>v. calculate_value h = Inr v \<and> v < 17 \<longrightarrow>
         play_turn h sh w =
           (case deal_card sh w of
              Inl e \<Rightarrow> Inl e
            | Inr (c, w1) \<Rightarrow> play_turn (add_card h c) sh w1))
   \<and> (\<forall>h' w'. play_turn h sh w = Inr (h', w') \<longrightarrow>
         (\<exists>v'. calculate_value h' = Inr v' \<and> 17 \<le> v')
         \<and> (\<exists>ds. h' = h @ ds
               \<and> (\<forall>k<length ds. \<exists>v. calculate_value (h @ take k ds) = Inr v \<and> v < 17)))"
proof -
  have a: "\<forall>v. calculate_value h = Inr v \<and> 17 \<le> v \<longrightarrow> play_turn h sh w = Inr (h, w)"
    using play_turn_stand by blast
  have b: "\<forall>v. calculate_value h = Inr v \<and> v < 17 \<longrightarrow>
         play_turn h sh w =
           (case deal_card sh w of
              Inl e \<Rightarrow> Inl e
            | Inr (c, w1) \<Rightarrow> play_turn (add_card h c) sh w1)"
    using play_turn_hit by blast
  have c: "\<forall>h' w'. play_turn h sh w = Inr (h', w') \<longrightarrow>
         (\<exists>v'. calculate_value h' = Inr v' \<and> 17 \<le> v')
         \<and> (\<exists>ds. h' = h @ ds
               \<and> (\<forall>k<length ds. \<exists>v. calculate_value (h @ take k ds) = Inr v \<and> v < 17))"
    using play_turn_result [of h sh w] by blast
  from a b c show ?thesis by blast
qed

theorem play_turn_policy_witness:
  "play_turn [Card ''A'' ''S'', Card ''6'' ''H''] \<lparr>deck_count = 1\<rparr>
      \<lparr>shoe = [Card ''2'' ''C'', Card ''5'' ''D''], rng = (\<lambda>k. 0), stdin = [], stdout = []\<rparr>
     = Inr ([Card ''A'' ''S'', Card ''6'' ''H''],
            \<lparr>shoe = [Card ''2'' ''C'', Card ''5'' ''D''], rng = (\<lambda>k. 0), stdin = [], stdout = []\<rparr>)
   \<and> play_turn [Card ''K'' ''S'', Card ''6'' ''H''] \<lparr>deck_count = 1\<rparr>
      \<lparr>shoe = [Card ''2'' ''C'', Card ''5'' ''D''], rng = (\<lambda>k. 0), stdin = [], stdout = []\<rparr>
     = Inr ([Card ''K'' ''S'', Card ''6'' ''H'', Card ''5'' ''D''],
            \<lparr>shoe = [Card ''2'' ''C''], rng = (\<lambda>k. 0), stdin = [], stdout = []\<rparr>)
   \<and> calculate_value [Card ''K'' ''S'', Card ''6'' ''H'', Card ''5'' ''D''] = Inr 21"
proof -
  let ?w = "\<lparr>shoe = [Card ''2'' ''C'', Card ''5'' ''D''], rng = (\<lambda>k. 0), stdin = [], stdout = []\<rparr>"
  let ?w1 = "\<lparr>shoe = [Card ''2'' ''C''], rng = (\<lambda>k. 0), stdin = [], stdout = []\<rparr>"
  let ?sh = "\<lparr>deck_count = 1\<rparr>"
  have d: "deal_card ?sh ?w = Inr (Card ''5'' ''D'', ?w1)"
    by (simp add: deal_card_def is_empty_def pop_def)
  from play_turn_policy [of "[Card ''A'' ''S'', Card ''6'' ''H'']" ?sh ?w]
  have soft: "play_turn [Card ''A'' ''S'', Card ''6'' ''H''] ?sh ?w
                = Inr ([Card ''A'' ''S'', Card ''6'' ''H''], ?w)"
    by (simp add: value_examples)
  from play_turn_policy [of "[Card ''K'' ''S'', Card ''6'' ''H'']" ?sh ?w]
  have "play_turn [Card ''K'' ''S'', Card ''6'' ''H''] ?sh ?w
          = play_turn [Card ''K'' ''S'', Card ''6'' ''H'', Card ''5'' ''D''] ?sh ?w1"
    by (simp add: value_examples d add_card_def)
  also from play_turn_policy [of "[Card ''K'' ''S'', Card ''6'' ''H'', Card ''5'' ''D'']" ?sh ?w1]
  have "\<dots> = Inr ([Card ''K'' ''S'', Card ''6'' ''H'', Card ''5'' ''D''], ?w1)"
    by (simp add: value_examples)
  finally show ?thesis using soft value_examples(2) by simp
qed

subsection \<open>The dealer's loop is short\<close>

lemma hard_total_add_card: "hard_total (add_card h c) = hard_total h + hard_points c"
  by (simp add: hard_total_def add_card_def)

lemma hard_total_ranks: "\<forall>c\<in>set h. rank c \<in> set ranks \<Longrightarrow> int (length h) \<le> hard_total h"
proof (induction h)
  case Nil
  show ?case by (simp add: hard_total_def)
next
  case (Cons c cs)
  then have "1 \<le> hard_points c" and "int (length cs) \<le> hard_total cs"
    by (simp_all add: hard_points_ranks)
  then show ?case by (simp add: hard_total_def)
qed

lemma pop_shoe: "pop w = Inr (c, w') \<Longrightarrow> shoe w = shoe w' @ [c]"
  by (auto simp: pop_def split: list.splits)

lemma set_shoe_shuffle: "set (shoe (shuffle dc w)) = set (shoe w) \<union> set (decks dc)"
proof -
  have "set_mset (mset (shoe (shuffle dc w))) = set_mset (mset (shoe w) + mset (decks dc))"
    by (simp only: shoe_shuffle)
  then show ?thesis by simp
qed

lemma deal_card_ranks:
  assumes "\<forall>c\<in>set (shoe w). rank c \<in> set ranks" and "deal_card sh w = Inr (c, w1)"
  shows "rank c \<in> set ranks \<and> (\<forall>c\<in>set (shoe w1). rank c \<in> set ranks)"
proof -
  let ?w0 = "if is_empty w then emit ShoeReshuffled (shuffle (deck_count sh) w) else w"
  have "set (shoe ?w0) \<subseteq> set (shoe w) \<union> set (decks (deck_count sh))"
    by (simp add: emit_def set_shoe_shuffle)
  with assms(1) have all: "\<forall>c\<in>set (shoe ?w0). rank c \<in> set ranks"
    using rank_decks by blast
  from assms(2) have "pop ?w0 = Inr (c, w1)" by (simp add: deal_card_def)
  from pop_shoe [OF this] have "set (shoe ?w0) = insert c (set (shoe w1))" by simp
  with all show ?thesis by blast
qed

lemma play_turn_bound:
  assumes "\<forall>c\<in>set h. rank c \<in> set ranks" and "\<forall>c\<in>set (shoe w). rank c \<in> set ranks"
    and "1 \<le> deck_count sh \<or> nat (17 - hard_total h) \<le> length (shoe w)"
  shows "\<exists>h' w'. play_turn h sh w = Inr (h', w')
           \<and> length h' \<le> length h + nat (17 - hard_total h)"
  using assms
proof (induction "nat (17 - hard_total h)" arbitrary: h w rule: less_induct)
  case less
  from less.prems(1) have v: "calculate_value h = Inr (spec_value h)"
    by (rule calculate_value_standard)
  show ?case
  proof (cases "spec_value h < 17")
    case False
    with v have "play_turn h sh w = Inr (h, w)" by (simp add: play_turn_stand)
    then show ?thesis by simp
  next
    case True
    from hard_total_le_value [OF v] True have lt: "hard_total h < 17" by simp
    have "\<exists>c w1. deal_card sh w = Inr (c, w1) \<and> (shoe w \<noteq> [] \<longrightarrow> length (shoe w1) + 1 = length (shoe w))"
    proof (cases "shoe w = []")
      case True
      with less.prems(3) lt have "1 \<le> deck_count sh" by auto
      from deal_card_reshuffle [OF True this] True show ?thesis by blast
    next
      case False
      from deal_card_removes_one [OF this, of sh] show ?thesis by blast
    qed
    then obtain c w1 where d: "deal_card sh w = Inr (c, w1)"
      and one: "shoe w \<noteq> [] \<longrightarrow> length (shoe w1) + 1 = length (shoe w)"
      by blast
    from deal_card_ranks [OF less.prems(2) d] have c: "rank c \<in> set ranks"
      and shoe1: "\<forall>c\<in>set (shoe w1). rank c \<in> set ranks"
      by simp_all
    from hard_points_ranks [OF c] have up: "hard_total h + 1 \<le> hard_total (add_card h c)"
      by (simp add: hard_total_add_card)
    with lt have smaller: "nat (17 - hard_total (add_card h c)) < nat (17 - hard_total h)"
      by simp
    from less.prems(1) c have hand1: "\<forall>c\<in>set (add_card h c). rank c \<in> set ranks"
      by (simp add: add_card_def)
    have enough: "1 \<le> deck_count sh \<or> nat (17 - hard_total (add_card h c)) \<le> length (shoe w1)"
    proof (cases "1 \<le> deck_count sh")
      case True
      then show ?thesis by simp
    next
      case False
      with less.prems(3) have need: "nat (17 - hard_total h) \<le> length (shoe w)" by simp
      with lt have "shoe w \<noteq> []" by auto
      with one have "length (shoe w1) + 1 = length (shoe w)" by simp
      with need smaller have "nat (17 - hard_total (add_card h c)) \<le> length (shoe w1)"
        by linarith
      then show ?thesis by simp
    qed
    from less.hyps [OF smaller hand1 shoe1 enough] obtain h' w'
      where r: "play_turn (add_card h c) sh w1 = Inr (h', w')"
        and l: "length h' \<le> length (add_card h c) + nat (17 - hard_total (add_card h c))"
      by blast
    from v True d r have "play_turn h sh w = Inr (h', w')" by (simp add: play_turn_hit)
    moreover have "length (add_card h c) = length h + 1" by (simp add: add_card_def)
    with l smaller have "length h' \<le> length h + nat (17 - hard_total h)"
      by linarith
    ultimately show ?thesis by blast
  qed
qed

text \<open>
  C9. \<^verbatim>\<open>Dealer.play_turn\<close> always returns when every \<^verbatim>\<open>deal_card\<close> returns a card (the shoe's
  deck count is at least 1, or the shoe holds as many cards as the hand lacks to a hard total
  of 17), for a hand and a shoe of cards of the ranks 2 to 10, J, Q, K and A. Each card drawn
  raises the hard total of the hand (every Ace counted as 1) by at least 1; the value of a
  hand is never below its hard total, so the loop ends once the hard total is 17; hence it
  draws at most 17 cards.
\<close>

theorem play_turn_terminates:
  assumes "\<forall>c\<in>set h. rank c \<in> set ranks" and "\<forall>c\<in>set (shoe w). rank c \<in> set ranks"
    and "1 \<le> deck_count sh \<or> nat (17 - hard_total h) \<le> length (shoe w)"
  shows "(\<exists>h' w'. play_turn h sh w = Inr (h', w')
            \<and> length h' \<le> length h + nat (17 - hard_total h)
            \<and> length h' \<le> length h + 17)
       \<and> (\<forall>c. rank c \<in> set ranks \<longrightarrow> hard_total h + 1 \<le> hard_total (add_card h c))
       \<and> (\<forall>v. calculate_value h = Inr v \<longrightarrow> hard_total h \<le> v)"
proof -
  from play_turn_bound [OF assms] obtain h' w' where r: "play_turn h sh w = Inr (h', w')"
    and l: "length h' \<le> length h + nat (17 - hard_total h)"
    by blast
  from hard_total_ranks [OF assms(1)] have "0 \<le> hard_total h" by simp
  then have "nat (17 - hard_total h) \<le> 17" by simp
  with l have "length h' \<le> length h + 17" by simp
  with r l have a: "\<exists>h' w'. play_turn h sh w = Inr (h', w')
            \<and> length h' \<le> length h + nat (17 - hard_total h)
            \<and> length h' \<le> length h + 17"
    by blast
  have b: "\<forall>c. rank c \<in> set ranks \<longrightarrow> hard_total h + 1 \<le> hard_total (add_card h c)"
    using hard_points_ranks by (simp add: hard_total_add_card)
  have c: "\<forall>v. calculate_value h = Inr v \<longrightarrow> hard_total h \<le> v"
    using hard_total_le_value by blast
  from a b c show ?thesis by blast
qed

theorem play_turn_terminates_witness:
  "(\<exists>h' w'. play_turn [] \<lparr>deck_count = 1\<rparr>
               \<lparr>shoe = [Card ''A'' ''S'', Card ''9'' ''H'', Card ''8'' ''D''], rng = (\<lambda>k. 0),
                  stdin = [], stdout = []\<rparr> = Inr (h', w')
       \<and> length h' \<le> 17)
   \<and> play_turn [] \<lparr>deck_count = 1\<rparr>
        \<lparr>shoe = [Card ''A'' ''S'', Card ''9'' ''H'', Card ''8'' ''D''], rng = (\<lambda>k. 0),
           stdin = [], stdout = []\<rparr>
      = Inr ([Card ''8'' ''D'', Card ''9'' ''H''],
             \<lparr>shoe = [Card ''A'' ''S''], rng = (\<lambda>k. 0), stdin = [], stdout = []\<rparr>)
   \<and> hard_total [] = 0
   \<and> hard_total (add_card [] (Card ''A'' ''S'')) = 1"
proof -
  let ?w = "\<lparr>shoe = [Card ''A'' ''S'', Card ''9'' ''H'', Card ''8'' ''D''], rng = (\<lambda>k. 0),
              stdin = [], stdout = []\<rparr>"
  have h: "\<forall>c\<in>set ([] :: hand). rank c \<in> set ranks" by simp
  have s: "\<forall>c\<in>set (shoe ?w). rank c \<in> set ranks" by (simp add: Card_def ranks_def)
  have dc: "1 \<le> deck_count \<lparr>deck_count = 1\<rparr> \<or> nat (17 - hard_total []) \<le> length (shoe ?w)"
    by simp
  from play_turn_terminates [OF h s dc]
  have a: "\<exists>h' w'. play_turn [] \<lparr>deck_count = 1\<rparr> ?w = Inr (h', w') \<and> length h' \<le> 17"
    by auto
  have v: "calculate_value [] = Inr 0" "calculate_value [Card ''8'' ''D''] = Inr 8"
    "calculate_value [Card ''8'' ''D'', Card ''9'' ''H''] = Inr 17"
    by (simp_all add: calculate_value_standard ranks_def Card_def spec_value_def spec_points_def)
  have b: "play_turn [] \<lparr>deck_count = 1\<rparr> ?w
      = Inr ([Card ''8'' ''D'', Card ''9'' ''H''],
             \<lparr>shoe = [Card ''A'' ''S''], rng = (\<lambda>k. 0), stdin = [], stdout = []\<rparr>)"
    by (simp add: play_turn.simps v deal_card_def is_empty_def pop_def add_card_def)
  have c: "hard_total [] = 0" "hard_total (add_card [] (Card ''A'' ''S'')) = 1"
    by (simp_all add: hard_total_def add_card_def hard_points_def Card_def)
  from a b c show ?thesis by blast
qed

section \<open>Settlement\<close>

lemma result_texts:
  "\<not> sublist ''You win'' ''Dealer wins! You busted.''"
  "\<not> sublist ''It's a tie'' ''Dealer wins! You busted.''"
  "sublist ''You win'' ''You win! Dealer busted.''"
  "sublist ''You win'' ''You win!''"
  "\<not> sublist ''You win'' ''Dealer wins!''"
  "\<not> sublist ''It's a tie'' ''Dealer wins!''"
  "\<not> sublist ''You win'' ''It's a tie!''"
  "sublist ''It's a tie'' ''It's a tie!''"
  by (simp_all add: sublist_Cons_right)

lemma settle_texts:
  "settle bet ''Dealer wins! You busted.'' t w
     = (t, emit (YouLost bet) (emit (Result ''Dealer wins! You busted.'') w))"
  "settle bet ''You win! Dealer busted.'' t w
     = (t\<lparr>balance := balance t + bet * 2\<rparr>,
        emit (YouWon (bet * 2)) (emit (Result ''You win! Dealer busted.'') w))"
  "settle bet ''You win!'' t w
     = (t\<lparr>balance := balance t + bet * 2\<rparr>, emit (YouWon (bet * 2)) (emit (Result ''You win!'') w))"
  "settle bet ''Dealer wins!'' t w = (t, emit (YouLost bet) (emit (Result ''Dealer wins!'') w))"
  "settle bet ''It's a tie!'' t w
     = (t\<lparr>balance := balance t + bet\<rparr>, emit TieReturned (emit (Result ''It's a tie!'') w))"
  unfolding settle_def by (simp_all only: result_texts if_True if_False)

lemma determine_winner_values:
  "calculate_value (player_hand t) = Inr pv \<Longrightarrow> calculate_value (dealer_hand t) = Inr dv \<Longrightarrow>
   determine_winner t =
     Inr (if 21 < pv then ''Dealer wins! You busted.''
          else if 21 < dv then ''You win! Dealer busted.''
          else if dv < pv then ''You win!''
          else if pv < dv then ''Dealer wins!''
          else ''It's a tie!'')"
  by (simp add: determine_winner_def)

lemma settle_payout:
  assumes "calculate_value (player_hand t) = Inr pv" and "calculate_value (dealer_hand t) = Inr dv"
    and "determine_winner t = Inr r"
  shows "fst (settle bet r t w) = t\<lparr>balance := balance t + spec_payout bet pv dv\<rparr>"
proof -
  from determine_winner_values [OF assms(1,2)] assms(3)
  have r: "r = (if 21 < pv then ''Dealer wins! You busted.''
          else if 21 < dv then ''You win! Dealer busted.''
          else if dv < pv then ''You win!''
          else if pv < dv then ''Dealer wins!''
          else ''It's a tie!'')"
    by simp
  consider "21 < pv" | "pv \<le> 21" "21 < dv" | "pv \<le> 21" "dv \<le> 21" "dv < pv"
    | "pv \<le> 21" "dv \<le> 21" "pv < dv" | "pv \<le> 21" "dv \<le> 21" "pv = dv"
    by linarith
  then show ?thesis
  proof cases
    case 1
    with r have "r = ''Dealer wins! You busted.''" by simp
    with 1 show ?thesis by (simp add: settle_texts spec_payout_def)
  next
    case 2
    with r have "r = ''You win! Dealer busted.''" by simp
    with 2 show ?thesis by (simp add: settle_texts spec_payout_def)
  next
    case 3
    with r have "r = ''You win!''" by simp
    with 3 show ?thesis by (simp add: settle_texts spec_payout_def)
  next
    case 4
    with r have "r = ''Dealer wins!''" by simp
    with 4 show ?thesis by (simp add: settle_texts spec_payout_def)
  next
    case 5
    with r have "r = ''It's a tie!''" by simp
    with 5 show ?thesis by (simp add: settle_texts spec_payout_def)
  qed
qed

lemma settle_hands:
  "player_hand (fst (settle bet r t w)) = player_hand t
   \<and> dealer_hand (fst (settle bet r t w)) = dealer_hand t"
  by (simp add: settle_def)

lemma player_turn_result:
  "player_turn t w = Inr (b, t', w') \<Longrightarrow>
   balance t' = balance t \<and> dealer_hand t' = dealer_hand t \<and> table_shoe t' = table_shoe t
   \<and> (\<not> b \<longrightarrow> (\<exists>v. calculate_value (player_hand t') = Inr v \<and> 21 < v))"
proof (induction t w rule: player_turn.induct)
  case (1 t w)
  from "1.prems" obtain w1 l w2 where dh: "display_hands t True w = Inr w1"
    and i: "py_input HitStandPrompt w1 = Inr (l, w2)"
    by (subst (asm) player_turn.simps) (auto split: sum.splits)
  show ?case
  proof (cases "lower l = ''h''")
    case True
    with "1.prems" dh i obtain c w3 v where d: "deal_card (table_shoe t) w2 = Inr (c, w3)"
      and v: "calculate_value (add_card (player_hand t) c) = Inr v"
      by (subst (asm) player_turn.simps) (auto split: sum.splits)
    show ?thesis
    proof (cases "v > 21")
      case bust: True
      with "1.prems" dh i True d v
      have "t' = t\<lparr>player_hand := add_card (player_hand t) c\<rparr>"
        by (subst (asm) player_turn.simps) (auto split: sum.splits)
      with v bust show ?thesis by simp
    next
      case False
      with "1.prems" dh i True d v
      have r: "player_turn (t\<lparr>player_hand := add_card (player_hand t) c\<rparr>) w3 = Inr (b, t', w')"
        by (subst (asm) player_turn.simps) simp
      from "1.IH"(1) [OF dh i refl True d refl v False r] show ?thesis by simp
    qed
  next
    case noth: False
    show ?thesis
    proof (cases "lower l = ''s''")
      case True
      with "1.prems" dh i noth have "t' = t" and "b" by (subst (asm) player_turn.simps, simp)+
      then show ?thesis by simp
    next
      case False
      with "1.prems" dh i noth have r: "player_turn t (emit InvalidAction w2) = Inr (b, t', w')"
        by (subst (asm) player_turn.simps) simp
      from "1.IH"(2) [OF dh i refl noth False r] show ?thesis by simp
    qed
  qed
qed

lemma balance_deal_initial: "deal_initial t w = Inr (t', w') \<Longrightarrow> balance t' = balance t"
  by (auto simp: deal_initial_def deal_player_def deal_dealer_def split: sum.splits)

lemma dealer_phase_result:
  assumes "dealer_phase bet t w = Inr (t', w')"
  shows "\<exists>pv dv. calculate_value (player_hand t') = Inr pv \<and> calculate_value (dealer_hand t') = Inr dv
           \<and> balance t' = balance t + spec_payout bet pv dv"
proof -
  from assms obtain h w1 w2 r
    where "play_turn (dealer_hand t) (table_shoe t) (emit DealersTurn w) = Inr (h, w1)"
      and "display_hands (t\<lparr>dealer_hand := h\<rparr>) False w1 = Inr w2"
      and dw: "determine_winner (t\<lparr>dealer_hand := h\<rparr>) = Inr r"
      and fin: "settle bet r (t\<lparr>dealer_hand := h\<rparr>) w2 = (t', w')"
    by (auto simp: dealer_phase_def split: sum.splits)
  let ?t = "t\<lparr>dealer_hand := h\<rparr>"
  from dw obtain pv dv where pv: "calculate_value (player_hand ?t) = Inr pv"
    and dv: "calculate_value (dealer_hand ?t) = Inr dv"
    by (auto simp: determine_winner_def split: sum.splits)
  from settle_payout [OF pv dv dw, of bet w2] fin
  have t': "t' = ?t\<lparr>balance := balance ?t + spec_payout bet pv dv\<rparr>" by simp
  with pv dv show ?thesis by simp
qed

lemma play_round_result:
  assumes "play_round int_of t w = Inr (t', w')"
  shows "\<exists>bet w1 pv. place_bet int_of (balance t) w = Inr (bet, w1) \<and> 1 \<le> bet \<and> bet \<le> balance t
           \<and> calculate_value (player_hand t') = Inr pv
           \<and> (21 < pv \<longrightarrow> balance t' = balance t - bet)
           \<and> (pv \<le> 21 \<longrightarrow> (\<exists>dv. calculate_value (dealer_hand t') = Inr dv
                 \<and> balance t' = balance t - bet + spec_payout bet pv dv))"
proof -
  from assms obtain bet w1 t2 w2 stood t3 w3
    where pb: "place_bet int_of (balance t) w = Inr (bet, w1)"
      and di: "deal_initial (t\<lparr>balance := balance t - bet\<rparr>) w1 = Inr (t2, w2)"
      and pt: "player_turn t2 w2 = Inr (stood, t3, w3)"
      and fin: "(if stood then dealer_phase bet t3 w3 else Inr (t3, emit (YouLost bet) w3)) = Inr (t', w')"
    by (auto simp: play_round_def split: sum.splits)
  from place_bet_range [OF pb] have range: "1 \<le> bet" "bet \<le> balance t" by simp_all
  from balance_deal_initial [OF di] player_turn_result [OF pt]
  have b3: "balance t3 = balance t - bet"
    and bust: "\<not> stood \<longrightarrow> (\<exists>v. calculate_value (player_hand t3) = Inr v \<and> 21 < v)"
    by simp_all
  show ?thesis
  proof (cases stood)
    case True
    with fin have "dealer_phase bet t3 w3 = Inr (t', w')" by simp
    from dealer_phase_result [OF this] b3 obtain pv dv
      where "calculate_value (player_hand t') = Inr pv" "calculate_value (dealer_hand t') = Inr dv"
        "balance t' = balance t - bet + spec_payout bet pv dv"
      by auto
    with pb range show ?thesis by (auto simp: spec_payout_def)
  next
    case False
    with fin have "t' = t3" by simp
    with False bust b3 pb range show ?thesis by auto
  qed
qed

text \<open>
  C2. With the bet taken from the balance when it is placed: when the value of the player's
  hand exceeds 21 the dealer wins, whatever the dealer holds; otherwise the player wins when
  the dealer's value exceeds 21; otherwise the higher value wins and equal values are a
  tie. The settlement then adds twice the bet to the balance on a win, the bet on a tie and
  nothing on a loss. So a round that returns leaves the balance at what it was, less the bet,
  plus that payout for the values of the two hands at its end; a round in which the player
  busts leaves the balance less the bet.
\<close>

theorem settlement:
  "(\<forall>pv dv. calculate_value (player_hand t) = Inr pv \<and> calculate_value (dealer_hand t) = Inr dv
      \<longrightarrow> determine_winner t =
            Inr (if 21 < pv then ''Dealer wins! You busted.''
                 else if 21 < dv then ''You win! Dealer busted.''
                 else if dv < pv then ''You win!''
                 else if pv < dv then ''Dealer wins!''
                 else ''It's a tie!'')
          \<and> (\<forall>r. determine_winner t = Inr r \<longrightarrow>
                balance (fst (settle b r t w)) =
                  balance t + (if 21 < pv then 0
                               else if 21 < dv then 2 * b
                               else if dv < pv then 2 * b
                               else if pv < dv then 0
                               else b)))
   \<and> (\<forall>t' w'. play_round int_of t w = Inr (t', w') \<longrightarrow>
        (\<exists>bet w1 pv. place_bet int_of (balance t) w = Inr (bet, w1) \<and> 1 \<le> bet \<and> bet \<le> balance t
           \<and> calculate_value (player_hand t') = Inr pv
           \<and> (21 < pv \<longrightarrow> balance t' = balance t - bet)
           \<and> (pv \<le> 21 \<longrightarrow>
                (\<exists>dv. calculate_value (dealer_hand t') = Inr dv
                   \<and> balance t' = balance t - bet + spec_payout bet pv dv))))"
proof -
  have a: "determine_winner t =
            Inr (if 21 < pv then ''Dealer wins! You busted.''
                 else if 21 < dv then ''You win! Dealer busted.''
                 else if dv < pv then ''You win!''
                 else if pv < dv then ''Dealer wins!''
                 else ''It's a tie!'')
          \<and> (\<forall>r. determine_winner t = Inr r \<longrightarrow>
                balance (fst (settle b r t w)) =
                  balance t + (if 21 < pv then 0
                               else if 21 < dv then 2 * b
                               else if dv < pv then 2 * b
                               else if pv < dv then 0
                               else b))"
    if pv: "calculate_value (player_hand t) = Inr pv"
      and dv: "calculate_value (dealer_hand t) = Inr dv" for pv dv
  proof -
    have "balance (fst (settle b r t w)) = balance t + spec_payout b pv dv"
      if "determine_winner t = Inr r" for r
      using settle_payout [OF pv dv that, of b w] by simp
    with determine_winner_values [OF pv dv] show ?thesis by (simp add: spec_payout_def)
  qed
  have c: "\<forall>t' w'. play_round int_of t w = Inr (t', w') \<longrightarrow>
        (\<exists>bet w1 pv. place_bet int_of (balance t) w = Inr (bet, w1) \<and> 1 \<le> bet \<and> bet \<le> balance t
           \<and> calculate_value (player_hand t') = Inr pv
           \<and> (21 < pv \<longrightarrow> balance t' = balance t - bet)
           \<and> (pv \<le> 21 \<longrightarrow>
                (\<exists>dv. calculate_value (dealer_hand t') = Inr dv
                   \<and> balance t' = balance t - bet + spec_payout bet pv dv)))"
    using play_round_result [of int_of t w] by blast
  from a c show ?thesis by blast
qed

lemma round_values:
  "calculate_value [Card ''K'' ''S'', Card ''Q'' ''H''] = Inr 20"
  "calculate_value [Card ''10'' ''C'', Card ''9'' ''D''] = Inr 19"
  "calculate_value [Card ''8'' ''S'', Card ''10'' ''H''] = Inr 18"
  "calculate_value [Card ''J'' ''C'', Card ''8'' ''D''] = Inr 18"
  "calculate_value [Card ''K'' ''S'', Card ''Q'' ''H'', Card ''5'' ''C''] = Inr 25"
  by (simp_all add: calculate_value_standard ranks_def Card_def spec_value_def spec_points_def)

lemma lower_examples:
  "lower ''h'' = ''h''" "lower ''H'' = ''h''" "lower ''s'' = ''s''" "lower ''S'' = ''s''"
  "lower ''y'' = ''y''" "lower ''Y'' = ''y''" "lower ''n'' = ''n''" "lower ''yes'' = ''yes''"
  "lower [] = []" "lower ''x'' = ''x''"
  by code_simp+

lemmas round_steps =
  play_round_def place_bet.simps py_input_def py_int_ranks emit_def
  deal_initial_def deal_player_def deal_dealer_def deal_card_def is_empty_def pop_def add_card_def
  player_turn.simps display_hands_def print_hand_def round_values lower_examples
  dealer_phase_def play_turn.simps determine_winner_def settle_texts

theorem settlement_witness:
  "(case play_round py_int \<lparr>table_shoe = \<lparr>deck_count = 6\<rparr>, balance = 100, player_hand = [], dealer_hand = []\<rparr>
          \<lparr>shoe = [Card ''9'' ''D'', Card ''Q'' ''H'', Card ''10'' ''C'', Card ''K'' ''S''],
             rng = (\<lambda>k. 0), stdin = [''10'', ''s''], stdout = []\<rparr> of
      Inl e \<Rightarrow> False
    | Inr (t', w') \<Rightarrow>
        player_hand t' = [Card ''K'' ''S'', Card ''Q'' ''H'']
        \<and> dealer_hand t' = [Card ''10'' ''C'', Card ''9'' ''D'']
        \<and> balance t' = 110 \<and> balance t' = 100 - 10 + spec_payout 10 20 19)
   \<and> (case play_round py_int \<lparr>table_shoe = \<lparr>deck_count = 6\<rparr>, balance = 100, player_hand = [], dealer_hand = []\<rparr>
          \<lparr>shoe = [Card ''8'' ''D'', Card ''10'' ''H'', Card ''J'' ''C'', Card ''8'' ''S''],
             rng = (\<lambda>k. 0), stdin = [''10'', ''s''], stdout = []\<rparr> of
      Inl e \<Rightarrow> False
    | Inr (t', w') \<Rightarrow>
        player_hand t' = [Card ''8'' ''S'', Card ''10'' ''H'']
        \<and> dealer_hand t' = [Card ''J'' ''C'', Card ''8'' ''D'']
        \<and> balance t' = 100 \<and> balance t' = 100 - 10 + spec_payout 10 18 18)
   \<and> (case play_round py_int \<lparr>table_shoe = \<lparr>deck_count = 6\<rparr>, balance = 100, player_hand = [], dealer_hand = []\<rparr>
          \<lparr>shoe = [Card ''5'' ''C'', Card ''9'' ''D'', Card ''Q'' ''H'', Card ''10'' ''C'', Card ''K'' ''S''],
             rng = (\<lambda>k. 0), stdin = [''10'', ''H''], stdout = []\<rparr> of
      Inl e \<Rightarrow> False
    | Inr (t', w') \<Rightarrow>
        player_hand t' = [Card ''K'' ''S'', Card ''Q'' ''H'', Card ''5'' ''C'']
        \<and> dealer_hand t' = [Card ''10'' ''C'', Card ''9'' ''D'']
        \<and> balance t' = 90)"
proof -
  let ?t = "\<lparr>table_shoe = \<lparr>deck_count = 6\<rparr>, balance = 100, player_hand = [], dealer_hand = []\<rparr>"
  let ?wa = "\<lparr>shoe = [Card ''9'' ''D'', Card ''Q'' ''H'', Card ''10'' ''C'', Card ''K'' ''S''],
             rng = (\<lambda>k. 0), stdin = [''10'', ''s''], stdout = []\<rparr>"
  let ?wb = "\<lparr>shoe = [Card ''8'' ''D'', Card ''10'' ''H'', Card ''J'' ''C'', Card ''8'' ''S''],
             rng = (\<lambda>k. 0), stdin = [''10'', ''s''], stdout = []\<rparr>"
  let ?wc = "\<lparr>shoe = [Card ''5'' ''C'', Card ''9'' ''D'', Card ''Q'' ''H'', Card ''10'' ''C'', Card ''K'' ''S''],
             rng = (\<lambda>k. 0), stdin = [''10'', ''H''], stdout = []\<rparr>"
  have bet: "\<And>w. stdin w = [''10'', x] \<Longrightarrow> fst (projr (place_bet py_int 100 w)) = 10" for x
    by (simp add: place_bet.simps py_input_def py_int_ranks)
  obtain ta wa' where ra: "play_round py_int ?t ?wa = Inr (ta, wa')"
    and ha: "player_hand ta = [Card ''K'' ''S'', Card ''Q'' ''H'']"
      "dealer_hand ta = [Card ''10'' ''C'', Card ''9'' ''D'']"
    by (simp add: round_steps)
  obtain tb wb' where rb: "play_round py_int ?t ?wb = Inr (tb, wb')"
    and hb: "player_hand tb = [Card ''8'' ''S'', Card ''10'' ''H'']"
      "dealer_hand tb = [Card ''J'' ''C'', Card ''8'' ''D'']"
    by (simp add: round_steps)
  obtain tc wc' where rc: "play_round py_int ?t ?wc = Inr (tc, wc')"
    and hc: "player_hand tc = [Card ''K'' ''S'', Card ''Q'' ''H'', Card ''5'' ''C'']"
      "dealer_hand tc = [Card ''10'' ''C'', Card ''9'' ''D'']"
    by (simp add: round_steps)
  from settlement [of ?t 0 ?wa py_int] ra ha bet [of ?wa "''s''"]
  have a: "balance ta = 100 - 10 + spec_payout 10 20 19"
    by (auto simp: round_values)
  from settlement [of ?t 0 ?wb py_int] rb hb bet [of ?wb "''s''"]
  have b: "balance tb = 100 - 10 + spec_payout 10 18 18"
    by (auto simp: round_values)
  from settlement [of ?t 0 ?wc py_int] rc hc bet [of ?wc "''H''"]
  have c: "balance tc = 90"
    by (auto simp: round_values)
  from ra ha a rb hb b rc hc c show ?thesis by (simp add: spec_payout_def)
qed

section \<open>The session\<close>

lemma spec_payout_nonneg: "0 \<le> bet \<Longrightarrow> 0 \<le> spec_payout bet pv dv"
  by (simp add: spec_payout_def)

lemma balance_play_round:
  assumes "play_round int_of t w = Inr (t', w')"
  shows "0 \<le> balance t'"
proof -
  from play_round_result [OF assms] obtain bet pv
    where bet: "1 \<le> bet" "bet \<le> balance t"
      and bust: "21 < pv \<longrightarrow> balance t' = balance t - bet"
      and settled: "pv \<le> 21 \<longrightarrow> (\<exists>dv. balance t' = balance t - bet + spec_payout bet pv dv)"
    by blast
  show ?thesis
  proof (cases "21 < pv")
    case True
    with bust bet show ?thesis by simp
  next
    case False
    with settled obtain dv where "balance t' = balance t - bet + spec_payout bet pv dv" by auto
    moreover from bet have "0 \<le> spec_payout bet pv dv" by (intro spec_payout_nonneg) simp
    ultimately show ?thesis using bet by simp
  qed
qed

lemma table_loop_round:
  assumes "0 < balance t" and "play_round int_of t w = Inr (t1, w1)"
  shows "table_loop int_of t w =
           (if balance t1 = 0 then Inr (t1, emit OutOfMoney w1)
            else
              (case py_input PlayAgainPrompt w1 of
                 Inl e \<Rightarrow> Inl e
               | Inr (l, w2) \<Rightarrow>
                   if lower l \<noteq> ''y'' then Inr (t1, emit (Thanks (balance t1)) w2)
                   else table_loop int_of (t1\<lparr>player_hand := [], dealer_hand := []\<rparr>) w2))"
  using assms by (subst table_loop.simps) simp

lemma char_codes: "char_of (121 :: nat) = CHR ''y''" "char_of (89 :: nat) = CHR ''Y''"
  by code_simp+

lemma lower_char_y: "lower_char c = CHR ''y'' \<longleftrightarrow> c = CHR ''y'' \<or> c = CHR ''Y''"
proof (cases "65 \<le> (of_char c :: nat) \<and> (of_char c :: nat) \<le> 90")
  case True
  then have l: "lower_char c = char_of ((of_char c :: nat) + 32)" by (simp add: lower_char_def)
  have "char_of ((of_char c :: nat) + 32) = CHR ''y'' \<longleftrightarrow> (of_char c :: nat) = 89"
  proof
    assume "char_of ((of_char c :: nat) + 32) = CHR ''y''"
    then have "(of_char (char_of ((of_char c :: nat) + 32)) :: nat) = of_char (CHR ''y'')" by simp
    with True show "(of_char c :: nat) = 89" by (simp add: of_char_of)
  next
    assume "(of_char c :: nat) = 89"
    then show "char_of ((of_char c :: nat) + 32) = CHR ''y''" by (simp add: char_codes)
  qed
  moreover have "(of_char c :: nat) = 89 \<longleftrightarrow> c = CHR ''Y''"
  proof
    assume "(of_char c :: nat) = 89"
    then have "char_of (of_char c :: nat) = char_of (89 :: nat)" by simp
    then show "c = CHR ''Y''" by (simp add: char_codes)
  next
    assume "c = CHR ''Y''"
    then show "(of_char c :: nat) = 89" by simp
  qed
  moreover from True have "c \<noteq> CHR ''y''" by auto
  ultimately show ?thesis using l by simp
next
  case False
  then have "lower_char c = c" by (auto simp: lower_char_def)
  moreover from False have "c \<noteq> CHR ''Y''" by auto
  ultimately show ?thesis by simp
qed

lemma lower_y: "lower l = ''y'' \<longleftrightarrow> l = ''y'' \<or> l = ''Y''"
proof (cases l)
  case Nil
  then show ?thesis by (simp add: lower_def)
next
  case (Cons c cs)
  then show ?thesis using lower_char_y [of c] by (auto simp: lower_def)
qed

text \<open>
  C7. In the loop of \<^verbatim>\<open>play_table\<close>, after a round has settled: when the balance is exactly 0
  the session ends at once, printing only that the money is gone, with no prompt (no line of
  the input is read). Otherwise the balance is positive and the player is asked whether to
  play again; on "y" or "Y" both hands are reset to empty and the loop goes on, its condition
  true, with the next round, which begins with the bet; on any other line the session ends,
  reporting the balance.
\<close>

theorem session_loop:
  assumes "0 < balance t" and "play_round int_of t w = Inr (t1, w1)"
  shows "(balance t1 = 0 \<longrightarrow>
            table_loop int_of t w = Inr (t1, emit OutOfMoney w1)
            \<and> stdin (emit OutOfMoney w1) = stdin w1
            \<and> stdout (emit OutOfMoney w1) = stdout w1 @ [OutOfMoney])
       \<and> (balance t1 \<noteq> 0 \<longrightarrow>
            0 < balance t1
          \<and> (stdin w1 = [] \<longrightarrow> table_loop int_of t w = Inl EOFError)
          \<and> (\<forall>l ls. stdin w1 = l # ls \<longrightarrow>
                (l = ''y'' \<or> l = ''Y'' \<longrightarrow>
                   table_loop int_of t w =
                     table_loop int_of (t1\<lparr>player_hand := [], dealer_hand := []\<rparr>)
                       ((emit PlayAgainPrompt w1)\<lparr>stdin := ls\<rparr>)
                   \<and> 0 < balance (t1\<lparr>player_hand := [], dealer_hand := []\<rparr>))
              \<and> (l \<noteq> ''y'' \<and> l \<noteq> ''Y'' \<longrightarrow>
                   table_loop int_of t w =
                     Inr (t1, emit (Thanks (balance t1))
                                ((emit PlayAgainPrompt w1)\<lparr>stdin := ls\<rparr>)))))"
proof -
  note loop = table_loop_round [OF assms]
  have zero: "table_loop int_of t w = Inr (t1, emit OutOfMoney w1)
            \<and> stdin (emit OutOfMoney w1) = stdin w1
            \<and> stdout (emit OutOfMoney w1) = stdout w1 @ [OutOfMoney]" if "balance t1 = 0"
    using that loop by (simp add: emit_def)
  have pos: "0 < balance t1" if "balance t1 \<noteq> 0"
    using that balance_play_round [OF assms(2)] by simp
  have eof: "table_loop int_of t w = Inl EOFError" if "balance t1 \<noteq> 0" and "stdin w1 = []"
    using that loop by (simp add: py_input_def)
  have again: "table_loop int_of t w =
                     table_loop int_of (t1\<lparr>player_hand := [], dealer_hand := []\<rparr>)
                       ((emit PlayAgainPrompt w1)\<lparr>stdin := ls\<rparr>)
                   \<and> 0 < balance (t1\<lparr>player_hand := [], dealer_hand := []\<rparr>)"
    if "balance t1 \<noteq> 0" and "stdin w1 = l # ls" and "l = ''y'' \<or> l = ''Y''" for l ls
  proof -
    from that(3) have "lower l = ''y''" by (simp add: lower_y)
    with that(1,2) loop pos show ?thesis by (simp add: py_input_def)
  qed
  have leave: "table_loop int_of t w =
                     Inr (t1, emit (Thanks (balance t1))
                                ((emit PlayAgainPrompt w1)\<lparr>stdin := ls\<rparr>))"
    if "balance t1 \<noteq> 0" and "stdin w1 = l # ls" and "l \<noteq> ''y'' \<and> l \<noteq> ''Y''" for l ls
  proof -
    from that(3) have "lower l \<noteq> ''y''" by (simp add: lower_y)
    with that(1,2) loop show ?thesis by (simp add: py_input_def)
  qed
  from zero pos eof again leave show ?thesis by blast
qed

lemma round_values_more:
  "calculate_value [Card ''8'' ''S'', Card ''10'' ''H''] = Inr 18"
  "calculate_value [Card ''10'' ''C'', Card ''9'' ''D''] = Inr 19"
  by (simp_all add: calculate_value_standard ranks_def Card_def spec_value_def spec_points_def)

theorem session_loop_witness:
  "play_table py_int \<lparr>table_shoe = \<lparr>deck_count = 6\<rparr>, balance = 10, player_hand = [], dealer_hand = []\<rparr>
      \<lparr>shoe = [Card ''9'' ''D'', Card ''10'' ''H'', Card ''10'' ''C'', Card ''8'' ''S''],
         rng = (\<lambda>k. 0), stdin = [''10'', ''s''], stdout = []\<rparr>
     = Inr (\<lparr>table_shoe = \<lparr>deck_count = 6\<rparr>, balance = 0,
              player_hand = [Card ''8'' ''S'', Card ''10'' ''H''],
              dealer_hand = [Card ''10'' ''C'', Card ''9'' ''D'']\<rparr>,
            \<lparr>shoe = [], rng = (\<lambda>k. 0), stdin = [],
               stdout = [Welcome, Policy, BetPrompt 10, YourHand,
                         ShowHand [Card ''8'' ''S'', Card ''10'' ''H''] 18, DealersHand,
                         ShowHidden [Card ''9'' ''D''], HitStandPrompt, DealersTurn, YourHand,
                         ShowHand [Card ''8'' ''S'', Card ''10'' ''H''] 18, DealersHand,
                         ShowHand [Card ''10'' ''C'', Card ''9'' ''D''] 19,
                         Result ''Dealer wins!'', YouLost 10, OutOfMoney]\<rparr>)
   \<and> (case play_table py_int \<lparr>table_shoe = \<lparr>deck_count = 6\<rparr>, balance = 100, player_hand = [], dealer_hand = []\<rparr>
          \<lparr>shoe = [Card ''9'' ''D'', Card ''Q'' ''H'', Card ''10'' ''C'', Card ''K'' ''S''],
             rng = (\<lambda>k. 0), stdin = [''10'', ''s'', ''n''], stdout = []\<rparr> of
        Inl e \<Rightarrow> False
      | Inr (t', w') \<Rightarrow>
          balance t' = 110 \<and> stdin w' = []
          \<and> drop 13 (stdout w') = [Result ''You win!'', YouWon 20, PlayAgainPrompt, Thanks 110])
   \<and> (case play_table py_int \<lparr>table_shoe = \<lparr>deck_count = 6\<rparr>, balance = 100, player_hand = [], dealer_hand = []\<rparr>
          \<lparr>shoe = [Card ''8'' ''D'', Card ''10'' ''H'', Card ''J'' ''C'', Card ''8'' ''S'',
                    Card ''9'' ''D'', Card ''Q'' ''H'', Card ''10'' ''C'', Card ''K'' ''S''],
             rng = (\<lambda>k. 0), stdin = [''10'', ''s'', ''Y'', ''5'', ''s'', ''q''], stdout = []\<rparr> of
        Inl e \<Rightarrow> False
      | Inr (t', w') \<Rightarrow>
          balance t' = 110 \<and> stdin w' = []
          \<and> player_hand t' = [Card ''8'' ''S'', Card ''10'' ''H'']
          \<and> dealer_hand t' = [Card ''J'' ''C'', Card ''8'' ''D'']
          \<and> filter (\<lambda>m. m \<in> set [BetPrompt 100, BetPrompt 110, PlayAgainPrompt, Thanks 110])
               (stdout w')
             = [BetPrompt 100, PlayAgainPrompt, BetPrompt 110, PlayAgainPrompt, Thanks 110])"
proof -
  let ?t = "\<lparr>table_shoe = \<lparr>deck_count = 6\<rparr>, balance = 10, player_hand = [], dealer_hand = []\<rparr>"
  let ?w = "\<lparr>shoe = [Card ''9'' ''D'', Card ''10'' ''H'', Card ''10'' ''C'', Card ''8'' ''S''],
         rng = (\<lambda>k. 0), stdin = [''10'', ''s''], stdout = [Welcome, Policy]\<rparr>"
  let ?t1 = "\<lparr>table_shoe = \<lparr>deck_count = 6\<rparr>, balance = 0,
              player_hand = [Card ''8'' ''S'', Card ''10'' ''H''],
              dealer_hand = [Card ''10'' ''C'', Card ''9'' ''D'']\<rparr>"
  let ?w1 = "\<lparr>shoe = [], rng = (\<lambda>k. 0), stdin = [],
               stdout = [Welcome, Policy, BetPrompt 10, YourHand,
                         ShowHand [Card ''8'' ''S'', Card ''10'' ''H''] 18, DealersHand,
                         ShowHidden [Card ''9'' ''D''], HitStandPrompt, DealersTurn, YourHand,
                         ShowHand [Card ''8'' ''S'', Card ''10'' ''H''] 18, DealersHand,
                         ShowHand [Card ''10'' ''C'', Card ''9'' ''D''] 19,
                         Result ''Dealer wins!'', YouLost 10]\<rparr>"
  have p: "0 < balance ?t" by simp
  have r: "play_round py_int ?t ?w = Inr (?t1, ?w1)"
    by (simp add: round_steps round_values_more)
  from session_loop [OF p r] have "table_loop py_int ?t ?w = Inr (?t1, emit OutOfMoney ?w1)" by simp
  then have a: "play_table py_int ?t (?w\<lparr>stdout := []\<rparr>) = Inr (?t1, emit OutOfMoney ?w1)"
    by (simp add: play_table_def emit_def)
  have b: "case play_table py_int \<lparr>table_shoe = \<lparr>deck_count = 6\<rparr>, balance = 100, player_hand = [], dealer_hand = []\<rparr>
          \<lparr>shoe = [Card ''9'' ''D'', Card ''Q'' ''H'', Card ''10'' ''C'', Card ''K'' ''S''],
             rng = (\<lambda>k. 0), stdin = [''10'', ''s'', ''n''], stdout = []\<rparr> of
        Inl e \<Rightarrow> False
      | Inr (t', w') \<Rightarrow>
          balance t' = 110 \<and> stdin w' = []
          \<and> drop 13 (stdout w') = [Result ''You win!'', YouWon 20, PlayAgainPrompt, Thanks 110]"
    by (simp add: play_table_def table_loop.simps round_steps)
  have c: "case play_table py_int \<lparr>table_shoe = \<lparr>deck_count = 6\<rparr>, balance = 100, player_hand = [], dealer_hand = []\<rparr>
          \<lparr>shoe = [Card ''8'' ''D'', Card ''10'' ''H'', Card ''J'' ''C'', Card ''8'' ''S'',
                    Card ''9'' ''D'', Card ''Q'' ''H'', Card ''10'' ''C'', Card ''K'' ''S''],
             rng = (\<lambda>k. 0), stdin = [''10'', ''s'', ''Y'', ''5'', ''s'', ''q''], stdout = []\<rparr> of
        Inl e \<Rightarrow> False
      | Inr (t', w') \<Rightarrow>
          balance t' = 110 \<and> stdin w' = []
          \<and> player_hand t' = [Card ''8'' ''S'', Card ''10'' ''H'']
          \<and> dealer_hand t' = [Card ''J'' ''C'', Card ''8'' ''D'']
          \<and> filter (\<lambda>m. m \<in> set [BetPrompt 100, BetPrompt 110, PlayAgainPrompt, Thanks 110])
               (stdout w')
             = [BetPrompt 100, PlayAgainPrompt, BetPrompt 110, PlayAgainPrompt, Thanks 110]"
    by (simp add: play_table_def table_loop.simps round_steps lower_y)
  from a b c show ?thesis by (simp add: emit_def)
qed

end
